theory Spec2Isabelle
  imports Main "HOL-Library.Multiset"
begin

section \<open>Keyboard commanding: the data model\<close>

text \<open>
  The embedding follows \<^verbatim>\<open>src/wtf/events/keyboard.js\<close>. JavaScript functions and
  objects are compared by identity, so a callback and a scope object are modelled by an
  identity (a natural number); \<^verbatim>\<open>opt_scope\<close> may be left out (\<open>None\<close> for
  \<^verbatim>\<open>undefined\<close>). A window is likewise an object identity. Private members lose
  the trailing underscore of their JavaScript names (\<^verbatim>\<open>keyHandler_\<close> is \<open>keyHandler\<close>),
  which an Isabelle name cannot end with.
\<close>

type_synonym callback = nat
type_synonym scope_obj = "nat option"
type_synonym listener = "callback \<times> scope_obj"
type_synonym window = nat

text \<open>
  A JavaScript call either returns or throws, and what it wrote to the objects before it
  threw stays written. An outcome therefore carries the state in both cases.
\<close>

datatype ('e, 's) outcome = Returned 's | Threw 'e 's

fun state_of :: "('e, 's) outcome \<Rightarrow> 's" where
  "state_of (Returned s) = s"
| "state_of (Threw e s) = s"

fun returned :: "('e, 's) outcome \<Rightarrow> bool" where
  "returned (Returned s) = True"
| "returned (Threw e s) = False"

text \<open>The exception a call threw, if it threw.\<close>

fun thrown :: "('e, 's) outcome \<Rightarrow> 'e option" where
  "thrown (Returned s) = None"
| "thrown (Threw e s) = Some e"

text \<open>Sequencing of two calls: the second runs only when the first returned.\<close>

fun and_then :: "('e, 's) outcome \<Rightarrow> ('s \<Rightarrow> ('e, 's) outcome) \<Rightarrow> ('e, 's) outcome" where
  "and_then (Returned s) f = f s"
| "and_then (Threw e s) f = Threw e s"

subsection \<open>\<^verbatim>\<open>String.prototype.split\<close> with a one-character separator\<close>

text \<open>
  \<^verbatim>\<open>shortcut.split('|')\<close> scans the string, closing a segment at every separator. The
  result is never empty: \<^verbatim>\<open>''.split('|')\<close> is \<^verbatim>\<open>['']\<close> and \<^verbatim>\<open>'a|'.split('|')\<close> is
  \<^verbatim>\<open>['a', '']\<close>.
\<close>

fun split_acc :: "char \<Rightarrow> string \<Rightarrow> string \<Rightarrow> string list" where
  "split_acc sep acc [] = [acc]"
| "split_acc sep acc (c # cs) =
     (if c = sep then acc # split_acc sep [] cs else split_acc sep (acc @ [c]) cs)"

definition split :: "string \<Rightarrow> char \<Rightarrow> string list" where
  "split s sep = split_acc sep [] s"

subsection \<open>The event emitter (\<^verbatim>\<open>wtf.events.EventEmitter\<close>)\<close>

text \<open>
  \<^verbatim>\<open>wtf.events.Keyboard\<close> extends \<^verbatim>\<open>wtf.events.EventEmitter\<close>, whose source is not part
  of the fragment. Its state is the mapping from an event name to the listeners bound to
  it, in the order they were added; a name nobody listens to is mapped to the empty list.
\<close>

record EventEmitter =
  eventTypes :: "string \<Rightarrow> listener list"

text \<open>
  Modelled from the spec: \<^verbatim>\<open>wtf.events.EventEmitter.prototype.hasListeners\<close> is missing
  from the sources. The spec: "if the listener set for that descriptor is currently
  empty, registers it with the host key-capture subsystem".
\<close>

definition hasListeners :: "'a EventEmitter_scheme \<Rightarrow> string \<Rightarrow> bool" where
  "hasListeners em eventType \<longleftrightarrow> eventTypes em eventType \<noteq> []"

text \<open>
  Modelled from the spec: \<^verbatim>\<open>wtf.events.EventEmitter.prototype.addListener\<close> is missing
  from the sources. The spec: "Then adds the (descriptor, callback, scope) triple to the
  set. No error is raised for re-registering an identical triple twice; the second add is
  a duplicate entry in the set and both will fire"; listeners fire "in registration
  order", so the new entry goes last.
\<close>

definition addListener ::
  "'a EventEmitter_scheme \<Rightarrow> string \<Rightarrow> callback \<Rightarrow> scope_obj \<Rightarrow> 'a EventEmitter_scheme" where
  "addListener em eventType cb opt_scope =
     em\<lparr>eventTypes := (eventTypes em)(eventType := eventTypes em eventType @ [(cb, opt_scope)])\<rparr>"

text \<open>
  Modelled from the spec: \<^verbatim>\<open>wtf.events.EventEmitter.prototype.removeListener\<close> is missing
  from the sources. The spec: "Removes the matching triple from the listener set",
  "Equality for removal purposes is identity of callback plus scope", "Removing a triple
  that was never added is a no-op, not an error". One call removes one entry (the first
  that matches): the spec stores a duplicate registration as a second entry.
\<close>

definition removeListener ::
  "'a EventEmitter_scheme \<Rightarrow> string \<Rightarrow> callback \<Rightarrow> scope_obj \<Rightarrow> 'a EventEmitter_scheme" where
  "removeListener em eventType cb opt_scope =
     em\<lparr>eventTypes := (eventTypes em)(eventType := remove1 (cb, opt_scope) (eventTypes em eventType))\<rparr>"

subsection \<open>The host key handler (\<^verbatim>\<open>goog.ui.KeyboardShortcutHandler\<close>)\<close>

text \<open>
  The key handler belongs to the host library, not to the repository. Its state is the
  table of registered shortcuts, each with the identifier its event will carry, the three
  switches the constructor of the keyboard sets, and (for the claims about which calls
  are made) the list of the calls it received.
\<close>

datatype host_call = RegisterShortcut string string | UnregisterShortcut string

record KeyboardShortcutHandler =
  document :: window
  alwaysPreventDefault :: bool
  alwaysStopPropagation :: bool
  allShortcutsAreGlobal :: bool
  hostShortcuts :: "string \<Rightarrow> string option"
  calls :: "host_call list"

definition KeyboardShortcutHandler_new :: "window \<Rightarrow> KeyboardShortcutHandler" where
  "KeyboardShortcutHandler_new doc =
     \<lparr>document = doc, alwaysPreventDefault = False, alwaysStopPropagation = False,
      allShortcutsAreGlobal = False, hostShortcuts = (\<lambda>s. None), calls = []\<rparr>"

text \<open>
  Modelled from the spec: the host's \<^verbatim>\<open>registerShortcut\<close> is outside the repository.
  The spec: "register(descriptor) \<rightarrow> begins intercepting that combination", and a
  malformed descriptor makes the host raise "a descriptor-format error". Which
  descriptors the host rejects, and with which error, is the host's business: it is the
  parameter \<open>parse\<close> (\<open>None\<close> when the descriptor is accepted).
\<close>

definition registerShortcut ::
  "(string \<Rightarrow> 'e option) \<Rightarrow> KeyboardShortcutHandler \<Rightarrow> string \<Rightarrow> string
     \<Rightarrow> ('e, KeyboardShortcutHandler) outcome" where
  "registerShortcut parse h identifier shortcut =
     (let h1 = h\<lparr>calls := calls h @ [RegisterShortcut identifier shortcut]\<rparr>
      in case parse shortcut of
           Some err \<Rightarrow> Threw err h1
         | None \<Rightarrow> Returned (h1\<lparr>hostShortcuts := (hostShortcuts h1)(shortcut \<mapsto> identifier)\<rparr>))"

text \<open>
  Modelled from the spec: the host's \<^verbatim>\<open>unregisterShortcut\<close> is outside the repository.
  The spec: "unregister(descriptor)"; nothing is said to be raised.
\<close>

definition unregisterShortcut ::
  "KeyboardShortcutHandler \<Rightarrow> string \<Rightarrow> KeyboardShortcutHandler" where
  "unregisterShortcut h shortcut =
     h\<lparr>calls := calls h @ [UnregisterShortcut shortcut],
       hostShortcuts := (hostShortcuts h)(shortcut := None)\<rparr>"

section \<open>\<^verbatim>\<open>wtf.events.Keyboard\<close>\<close>

record Keyboard = EventEmitter +
  keyHandler :: KeyboardShortcutHandler

text \<open>The constructor: no listener yet, a fresh key handler with its three switches set.\<close>

definition Keyboard_new :: "window \<Rightarrow> Keyboard" where
  "Keyboard_new targetWindow =
     \<lparr>eventTypes = (\<lambda>eventType. []),
      keyHandler = (KeyboardShortcutHandler_new targetWindow)
        \<lparr>alwaysPreventDefault := True, alwaysStopPropagation := True,
         allShortcutsAreGlobal := True\<rparr>\<rparr>"

text \<open>
  One round of the loop of \<^verbatim>\<open>addShortcut\<close>: register with the host when nobody listens
  yet, then add the listener. When the host throws, the listener is not added.
\<close>

definition addShortcut_one ::
  "(string \<Rightarrow> 'e option) \<Rightarrow> Keyboard \<Rightarrow> string \<Rightarrow> callback \<Rightarrow> scope_obj \<Rightarrow> ('e, Keyboard) outcome" where
  "addShortcut_one parse k shortcut cb opt_scope =
     (if \<not> hasListeners k shortcut then
        (case registerShortcut parse (keyHandler k) shortcut shortcut of
           Threw err h \<Rightarrow> Threw err (k\<lparr>keyHandler := h\<rparr>)
         | Returned h \<Rightarrow> Returned (addListener (k\<lparr>keyHandler := h\<rparr>) shortcut cb opt_scope))
      else Returned (addListener k shortcut cb opt_scope))"

fun addShortcut_loop ::
  "(string \<Rightarrow> 'e option) \<Rightarrow> Keyboard \<Rightarrow> string list \<Rightarrow> callback \<Rightarrow> scope_obj \<Rightarrow> ('e, Keyboard) outcome" where
  "addShortcut_loop parse k [] cb opt_scope = Returned k"
| "addShortcut_loop parse k (shortcut # shortcuts) cb opt_scope =
     (case addShortcut_one parse k shortcut cb opt_scope of
        Threw err k1 \<Rightarrow> Threw err k1
      | Returned k1 \<Rightarrow> addShortcut_loop parse k1 shortcuts cb opt_scope)"

definition addShortcut ::
  "(string \<Rightarrow> 'e option) \<Rightarrow> Keyboard \<Rightarrow> string \<Rightarrow> callback \<Rightarrow> scope_obj \<Rightarrow> ('e, Keyboard) outcome" where
  "addShortcut parse k shortcut cb opt_scope =
     addShortcut_loop parse k (split shortcut (CHR ''|'')) cb opt_scope"

text \<open>
  One round of the loop of \<^verbatim>\<open>removeShortcut\<close>: remove the listener, then unregister
  from the host when nobody listens any more.
\<close>

definition removeShortcut_one :: "Keyboard \<Rightarrow> string \<Rightarrow> callback \<Rightarrow> scope_obj \<Rightarrow> Keyboard" where
  "removeShortcut_one k shortcut cb opt_scope =
     (let k1 = removeListener k shortcut cb opt_scope
      in if \<not> hasListeners k1 shortcut
         then k1\<lparr>keyHandler := unregisterShortcut (keyHandler k1) shortcut\<rparr>
         else k1)"

fun removeShortcut_loop :: "Keyboard \<Rightarrow> string list \<Rightarrow> callback \<Rightarrow> scope_obj \<Rightarrow> Keyboard" where
  "removeShortcut_loop k [] cb opt_scope = k"
| "removeShortcut_loop k (shortcut # shortcuts) cb opt_scope =
     removeShortcut_loop (removeShortcut_one k shortcut cb opt_scope) shortcuts cb opt_scope"

text \<open>
  Nothing in \<^verbatim>\<open>removeShortcut\<close> throws: \<^verbatim>\<open>removeListener\<close> and the host's
  \<^verbatim>\<open>unregisterShortcut\<close> always return. The function is total and has no error branch.
\<close>

definition removeShortcut :: "Keyboard \<Rightarrow> string \<Rightarrow> callback \<Rightarrow> scope_obj \<Rightarrow> Keyboard" where
  "removeShortcut k shortcut cb opt_scope =
     removeShortcut_loop k (split shortcut (CHR ''|'')) cb opt_scope"

text \<open>
  What a client does with a keyboard over time is a sequence of the two calls. A client
  that catches an exception goes on with the keyboard as the failed call left it.
\<close>

datatype shortcut_call =
  AddShortcut string callback scope_obj
| RemoveShortcut string callback scope_obj

fun perform :: "(string \<Rightarrow> 'e option) \<Rightarrow> Keyboard \<Rightarrow> shortcut_call \<Rightarrow> ('e, Keyboard) outcome" where
  "perform parse k (AddShortcut shortcut cb opt_scope) = addShortcut parse k shortcut cb opt_scope"
| "perform parse k (RemoveShortcut shortcut cb opt_scope) =
     Returned (removeShortcut k shortcut cb opt_scope)"

fun run_calls :: "(string \<Rightarrow> 'e option) \<Rightarrow> Keyboard \<Rightarrow> shortcut_call list \<Rightarrow> Keyboard" where
  "run_calls parse k [] = k"
| "run_calls parse k (c # cs) = run_calls parse (state_of (perform parse k c)) cs"

text \<open>
  Invariant I1 of the spec: the host intercepts a descriptor exactly when somebody
  listens to it, and the event of the registration is named after the descriptor.
\<close>

definition I1 :: "Keyboard \<Rightarrow> bool" where
  "I1 k \<longleftrightarrow>
     (\<forall>d. hostShortcuts (keyHandler k) d = (if eventTypes k d = [] then None else Some d))"

text \<open>The calls the host received between an earlier state and a later one.\<close>

definition new_calls :: "Keyboard \<Rightarrow> Keyboard \<Rightarrow> host_call list" where
  "new_calls k k' = drop (length (calls (keyHandler k))) (calls (keyHandler k'))"


text \<open>
  Registering the individual descriptors one call at a time, from left to right, with the
  same callback and scope; an exception ends the sequence, as it would in the caller.
\<close>

fun add_separately ::
  "(string \<Rightarrow> 'e option) \<Rightarrow> Keyboard \<Rightarrow> string list \<Rightarrow> callback \<Rightarrow> scope_obj \<Rightarrow> ('e, Keyboard) outcome" where
  "add_separately parse k [] cb opt_scope = Returned k"
| "add_separately parse k (d # ds) cb opt_scope =
     and_then (addShortcut parse k d cb opt_scope) (\<lambda>k1. add_separately parse k1 ds cb opt_scope)"

subsection \<open>Firing\<close>

text \<open>
  A callback is JavaScript of the client: called with its scope as \<^verbatim>\<open>this\<close>, it may
  change the keyboard (add or remove shortcuts), and it returns or throws. The behaviour
  of the callbacks is a parameter of the fan-out.
\<close>

type_synonym ('x, 's) behaviour = "callback \<Rightarrow> scope_obj \<Rightarrow> 's \<Rightarrow> ('x, 's) outcome"

text \<open>
  What one emission did: the event it emitted, the listeners it invoked (in order), the
  exceptions it caught and reported, and the emitter as the callbacks left it.
\<close>

record ('x, 's) dispatch =
  emitted :: "string list"
  invoked :: "listener list"
  reported :: "'x list"
  emitter :: 's

text \<open>
  Modelled from the spec: \<^verbatim>\<open>wtf.events.EventEmitter.prototype.emitEvent\<close> is missing from
  the sources. The spec: "Looks up and invokes every listener triple bound to that
  identifier, in registration order, each exactly once per physical key event"; "A
  listener callback throwing during fan-out: must be caught and reported (e.g. logged)
  without aborting delivery to sibling listeners for the same event"; "snapshot the
  listener set before invoking callbacks".
\<close>

fun emitEvent_loop ::
  "('x, 's) behaviour \<Rightarrow> ('x, 's) dispatch \<Rightarrow> listener list \<Rightarrow> ('x, 's) dispatch" where
  "emitEvent_loop run d [] = d"
| "emitEvent_loop run d (l # ls) =
     (case run (fst l) (snd l) (emitter d) of
        Returned s \<Rightarrow>
          emitEvent_loop run (d\<lparr>invoked := invoked d @ [l], emitter := s\<rparr>) ls
      | Threw x s \<Rightarrow>
          emitEvent_loop run
            (d\<lparr>invoked := invoked d @ [l], reported := reported d @ [x], emitter := s\<rparr>) ls)"

text \<open>
  For stating what a fan-out did: the emitter as one callback leaves it, whether the
  callback returned or threw, and the outcomes of calling the listeners one after the
  other, each on the emitter the previous one left.
\<close>

definition after_call :: "('x, 's) behaviour \<Rightarrow> 's \<Rightarrow> listener \<Rightarrow> 's" where
  "after_call run s l = state_of (run (fst l) (snd l) s)"

fun outcomes :: "('x, 's) behaviour \<Rightarrow> 's \<Rightarrow> listener list \<Rightarrow> ('x, 's) outcome list" where
  "outcomes run s [] = []"
| "outcomes run s (l # ls) = run (fst l) (snd l) s # outcomes run (after_call run s l) ls"

definition emitEvent ::
  "('x, 'a EventEmitter_scheme) behaviour \<Rightarrow> 'a EventEmitter_scheme \<Rightarrow> string
     \<Rightarrow> ('x, 'a EventEmitter_scheme) dispatch" where
  "emitEvent run em eventType =
     emitEvent_loop run \<lparr>emitted = [eventType], invoked = [], reported = [], emitter = em\<rparr>
       (eventTypes em eventType)"

text \<open>
  The constructor makes \<^verbatim>\<open>keyPressed_\<close> the handler of the key handler's
  \<^verbatim>\<open>SHORTCUT_TRIGGERED\<close> event; the event carries the identifier the shortcut was
  registered with. \<^verbatim>\<open>keyPressed_\<close> emits an event of that name and does nothing else.
\<close>

record KeyboardShortcutEvent =
  "identifier" :: string

definition keyPressed ::
  "('x, Keyboard) behaviour \<Rightarrow> Keyboard \<Rightarrow> KeyboardShortcutEvent \<Rightarrow> ('x, Keyboard) dispatch" where
  "keyPressed run k e = emitEvent run k (identifier e)"

section \<open>\<^verbatim>\<open>wtf.events.KeyboardScope\<close>\<close>

text \<open>
  A scope holds a reference to its keyboard and the list of the tuples it added. The
  keyboard is shared with every other client, so the model passes it beside the scope.
\<close>

record KeyboardScope =
  listeners :: "(string \<times> callback \<times> scope_obj) list"

definition KeyboardScope_new :: KeyboardScope where
  "KeyboardScope_new = \<lparr>listeners = []\<rparr>"

text \<open>The tuple is pushed before the keyboard is called: it is recorded even when the call throws.\<close>

definition KeyboardScope_addShortcut ::
  "(string \<Rightarrow> 'e option) \<Rightarrow> KeyboardScope \<times> Keyboard \<Rightarrow> string \<Rightarrow> callback \<Rightarrow> scope_obj
     \<Rightarrow> ('e, KeyboardScope \<times> Keyboard) outcome" where
  "KeyboardScope_addShortcut parse st shortcut cb opt_scope =
     (let ks = (fst st)\<lparr>listeners := listeners (fst st) @ [(shortcut, cb, opt_scope)]\<rparr>
      in case addShortcut parse (snd st) shortcut cb opt_scope of
           Threw err k \<Rightarrow> Threw err (ks, k)
         | Returned k \<Rightarrow> Returned (ks, k))"

text \<open>
  \<^verbatim>\<open>disposeInternal\<close> removes the recorded tuples in the order they were recorded; the
  list itself is left as it is. The call of the base class that follows the loop does
  not touch the keyboard.
\<close>

fun disposeInternal_loop :: "Keyboard \<Rightarrow> (string \<times> callback \<times> scope_obj) list \<Rightarrow> Keyboard" where
  "disposeInternal_loop k [] = k"
| "disposeInternal_loop k (listener # rest) =
     disposeInternal_loop
       (removeShortcut k (fst listener) (fst (snd listener)) (snd (snd listener))) rest"

definition disposeInternal :: "KeyboardScope \<times> Keyboard \<Rightarrow> KeyboardScope \<times> Keyboard" where
  "disposeInternal st = (fst st, disposeInternal_loop (snd st) (listeners (fst st)))"

text \<open>
  The recorded tuples, one triple for every individual descriptor of every tuple, in the
  order \<^verbatim>\<open>disposeInternal\<close> removes them.
\<close>

definition recorded_triples :: "KeyboardScope \<Rightarrow> (string \<times> callback \<times> scope_obj) list" where
  "recorded_triples ks =
     concat (map (\<lambda>t. map (\<lambda>d. (d, snd t)) (split (fst t) (CHR ''|''))) (listeners ks))"

definition recorded_for :: "KeyboardScope \<Rightarrow> string \<Rightarrow> listener list" where
  "recorded_for ks d = map snd (filter (\<lambda>t. fst t = d) (recorded_triples ks))"

section \<open>The keyboard of a window\<close>

text \<open>
  \<^verbatim>\<open>wtf.events.Keyboard.keyboardInstances_\<close> lives as long as the page. The state of the
  page, as \<^verbatim>\<open>getWindowKeyboard\<close> reads and writes it: the counter of
  \<^verbatim>\<open>goog.getUid\<close>, the uid stored on each object that has one, the map of the keyboards
  by uid, and the keyboards that were constructed. A keyboard is an object: the map
  holds a reference to it, which is its index in \<open>heap\<close>.
\<close>

record Page =
  uidCounter :: nat
  uidOf :: "window \<Rightarrow> nat option"
  keyboardInstances :: "nat \<Rightarrow> nat option"
  heap :: "Keyboard list"

text \<open>The page when the script is loaded: \<^verbatim>\<open>keyboardInstances_ = {}\<close>.\<close>

definition Page_new :: Page where
  "Page_new = \<lparr>uidCounter = 0, uidOf = (\<lambda>obj. None), keyboardInstances = (\<lambda>uid. None), heap = []\<rparr>"

text \<open>
  Modelled from the spec: \<^verbatim>\<open>goog.getUid\<close> belongs to the host library. The spec:
  "computes a stable identity key for it". The library stores the key on the object at the
  first call, taking the next value of a counter, and returns the stored key afterwards.
\<close>

definition getUid :: "Page \<Rightarrow> window \<Rightarrow> nat \<times> Page" where
  "getUid g obj =
     (case uidOf g obj of
        Some uid \<Rightarrow> (uid, g)
      | None \<Rightarrow>
          (let uid = uidCounter g + 1
           in (uid, g\<lparr>uidCounter := uid, uidOf := (uidOf g)(obj \<mapsto> uid)\<rparr>)))"

text \<open>
  \<open>goog_global\<close> is the window the script runs in (\<^verbatim>\<open>goog.global\<close>); a window object is
  never falsy, so \<^verbatim>\<open>opt_window || goog.global\<close> takes the global window exactly when
  the argument is left out.
\<close>

definition getWindowKeyboard :: "window \<Rightarrow> Page \<Rightarrow> window option \<Rightarrow> nat \<times> Page" where
  "getWindowKeyboard goog_global g opt_window =
     (let targetWindow = (case opt_window of Some w \<Rightarrow> w | None \<Rightarrow> goog_global);
          r = getUid g targetWindow;
          uid = fst r;
          g1 = snd r
      in case keyboardInstances g1 uid of
           Some keyboard \<Rightarrow> (keyboard, g1)
         | None \<Rightarrow>
             (let keyboard = length (heap g1)
              in (keyboard,
                  g1\<lparr>heap := heap g1 @ [Keyboard_new targetWindow],
                    keyboardInstances := (keyboardInstances g1)(uid \<mapsto> keyboard)\<rparr>)))"

text \<open>
  What happens on the page over its life: \<^verbatim>\<open>getWindowKeyboard\<close> is called, and the
  clients use the keyboards they were given. A use leaves the keyboard with the given
  reference in a new state (a reference nobody was given changes nothing). A run of
  events yields, for every call, the keyboard it returned.
\<close>

datatype page_event = GetWindowKeyboard "window option" | UseKeyboard nat Keyboard

fun page_step :: "window \<Rightarrow> Page \<Rightarrow> page_event \<Rightarrow> nat option \<times> Page" where
  "page_step goog_global g (GetWindowKeyboard opt_window) =
     (Some (fst (getWindowKeyboard goog_global g opt_window)),
      snd (getWindowKeyboard goog_global g opt_window))"
| "page_step goog_global g (UseKeyboard r k) = (None, g\<lparr>heap := (heap g)[r := k]\<rparr>)"

fun page_run :: "window \<Rightarrow> Page \<Rightarrow> page_event list \<Rightarrow> nat option list \<times> Page" where
  "page_run goog_global g [] = ([], g)"
| "page_run goog_global g (e # es) =
     (fst (page_step goog_global g e) # fst (page_run goog_global (snd (page_step goog_global g e)) es),
      snd (page_run goog_global (snd (page_step goog_global g e)) es))"

definition window_of :: "window \<Rightarrow> window option \<Rightarrow> window" where
  "window_of goog_global opt_window = (case opt_window of Some w \<Rightarrow> w | None \<Rightarrow> goog_global)"

text \<open>The keyboard cached for a window, if there is one.\<close>

definition cached :: "Page \<Rightarrow> window \<Rightarrow> nat option" where
  "cached g w = (case uidOf g w of Some uid \<Rightarrow> keyboardInstances g uid | None \<Rightarrow> None)"

text \<open>
  What holds of every page the calls can reach, whatever the clients did with the
  keyboards: uids come from the counter and are not shared, references point into the
  heap and are not shared.
\<close>

definition page_ok :: "Page \<Rightarrow> bool" where
  "page_ok g \<longleftrightarrow>
     (\<forall>w uid. uidOf g w = Some uid \<longrightarrow> uid \<le> uidCounter g) \<and>
     (\<forall>w w' uid. uidOf g w = Some uid \<longrightarrow> uidOf g w' = Some uid \<longrightarrow> w = w') \<and>
     (\<forall>uid r. keyboardInstances g uid = Some r \<longrightarrow> uid \<le> uidCounter g \<and> r < length (heap g)) \<and>
     (\<forall>uid uid' r. keyboardInstances g uid = Some r \<longrightarrow> keyboardInstances g uid' = Some r
        \<longrightarrow> uid = uid')"

section \<open>Keyboards used as examples\<close>

text \<open>A host that accepts every descriptor, and one that rejects the descriptors starting with \<^verbatim>\<open>?\<close>.\<close>

definition accept_all :: "string \<Rightarrow> string option" where
  "accept_all shortcut = None"

definition reject_marked :: "string \<Rightarrow> string option" where
  "reject_marked shortcut =
     (case shortcut of
        [] \<Rightarrow> None
      | c # cs \<Rightarrow> if c = CHR ''?'' then Some (''Invalid keyboard shortcut '' @ shortcut) else None)"

text \<open>A keyboard on which two callbacks listen to \<^verbatim>\<open>ctrl+g\<close>.\<close>

definition two_listeners :: Keyboard where
  "two_listeners =
     state_of (addShortcut accept_all
       (state_of (addShortcut accept_all (Keyboard_new 0) ''ctrl+g'' 1 None))
       ''ctrl+g'' 2 None)"

text \<open>A keyboard on which three callbacks listen to \<^verbatim>\<open>ctrl+g\<close>.\<close>

definition three_listeners :: Keyboard where
  "three_listeners =
     state_of (addShortcut accept_all
       (state_of (addShortcut accept_all
         (state_of (addShortcut accept_all (Keyboard_new 0) ''ctrl+g'' 1 None))
         ''ctrl+g'' 2 None))
       ''ctrl+g'' 3 None)"

text \<open>Callbacks that do nothing, and callbacks of which one throws.\<close>

definition quiet :: "(string, Keyboard) behaviour" where
  "quiet cb opt_scope k = Returned k"


text \<open>
  Callbacks with an effect on the keyboard: each call adds the callback as a listener of
  the event \<^verbatim>\<open>called\<close>, so that the listeners of \<^verbatim>\<open>called\<close> are the calls made, in
  order; the callback \<open>bad\<close> throws after doing so.
\<close>

definition notes_call :: "callback \<Rightarrow> (string, Keyboard) behaviour" where
  "notes_call bad cb opt_scope k =
     (if cb = bad then Threw ''listener failed'' (addListener k ''called'' cb opt_scope)
      else Returned (addListener k ''called'' cb opt_scope))"

text \<open>
  A scope that added three shortcuts to the keyboard with the two listeners: one that
  shares its descriptor with them, one with a scope object, one compound.
\<close>

definition scoped_three :: "KeyboardScope \<times> Keyboard" where
  "scoped_three =
     state_of (KeyboardScope_addShortcut accept_all
       (state_of (KeyboardScope_addShortcut accept_all
         (state_of (KeyboardScope_addShortcut accept_all (KeyboardScope_new, two_listeners)
            ''ctrl+g'' 7 None))
         ''ctrl+h'' 8 (Some 5)))
       ''ctrl+g|ctrl+j'' 9 None)"

section \<open>Properties\<close>

text \<open>The definitions a concrete keyboard is evaluated with.\<close>

lemmas keyboard_eval =
  addShortcut_def removeShortcut_def split_def addShortcut_one_def removeShortcut_one_def
  registerShortcut_def unregisterShortcut_def hasListeners_def addListener_def
  removeListener_def Keyboard_new_def KeyboardShortcutHandler_new_def new_calls_def
  accept_all_def reject_marked_def

subsection \<open>Splitting\<close>

lemma split_acc_not_Nil: "split_acc sep acc s \<noteq> []"
  by (induction s arbitrary: acc) auto

lemma split_acc_no_sep:
  "sep \<notin> set acc \<Longrightarrow> \<forall>x\<in>set (split_acc sep acc s). sep \<notin> set x"
proof (induction s arbitrary: acc)
  case Nil
  then show ?case by simp
next
  case (Cons c cs)
  show ?case
  proof (cases "c = sep")
    case True
    with Cons.prems Cons.IH [of "[]"] show ?thesis by simp
  next
    case False
    with Cons.prems Cons.IH [of "acc @ [c]"] show ?thesis by simp
  qed
qed

lemma split_acc_plain: "sep \<notin> set s \<Longrightarrow> split_acc sep acc s = [acc @ s]"
  by (induction s arbitrary: acc) auto

lemma split_plain: "sep \<notin> set s \<Longrightarrow> split s sep = [s]"
  by (simp add: split_def split_acc_plain)

lemma split_segment_plain: "x \<in> set (split s sep) \<Longrightarrow> split x sep = [x]"
  using split_acc_no_sep [of sep "[]" s] by (simp add: split_def split_acc_plain)

subsection \<open>One round of \<^verbatim>\<open>removeShortcut\<close>\<close>

lemma eventTypes_removeShortcut_one:
  "eventTypes (removeShortcut_one k x cb sc) = (eventTypes k)(x := remove1 (cb, sc) (eventTypes k x))"
  by (simp add: removeShortcut_one_def removeListener_def hasListeners_def Let_def)

lemma calls_removeShortcut_one:
  "calls (keyHandler (removeShortcut_one k x cb sc)) =
     calls (keyHandler k) @ (if remove1 (cb, sc) (eventTypes k x) = [] then [UnregisterShortcut x] else [])"
  by (simp add: removeShortcut_one_def removeListener_def hasListeners_def unregisterShortcut_def Let_def)

lemma hostShortcuts_removeShortcut_one:
  "hostShortcuts (keyHandler (removeShortcut_one k x cb sc)) =
     (if remove1 (cb, sc) (eventTypes k x) = [] then (hostShortcuts (keyHandler k))(x := None)
      else hostShortcuts (keyHandler k))"
  by (simp add: removeShortcut_one_def removeListener_def hasListeners_def unregisterShortcut_def Let_def)


subsection \<open>One round of \<^verbatim>\<open>addShortcut\<close>\<close>

lemma eventTypes_addShortcut_one:
  "eventTypes (state_of (addShortcut_one parse k x cb sc)) =
     (if eventTypes k x = [] \<and> parse x \<noteq> None then eventTypes k
      else (eventTypes k)(x := eventTypes k x @ [(cb, sc)]))"
  by (auto simp: addShortcut_one_def registerShortcut_def addListener_def hasListeners_def Let_def
      split: option.splits)

lemma calls_addShortcut_one:
  "calls (keyHandler (state_of (addShortcut_one parse k x cb sc))) =
     calls (keyHandler k) @ (if eventTypes k x = [] then [RegisterShortcut x x] else [])"
  by (auto simp: addShortcut_one_def registerShortcut_def addListener_def hasListeners_def Let_def
      split: option.splits)

lemma hostShortcuts_addShortcut_one:
  "hostShortcuts (keyHandler (state_of (addShortcut_one parse k x cb sc))) =
     (if eventTypes k x = [] \<and> parse x = None then (hostShortcuts (keyHandler k))(x \<mapsto> x)
      else hostShortcuts (keyHandler k))"
  by (auto simp: addShortcut_one_def registerShortcut_def addListener_def hasListeners_def Let_def
      split: option.splits)

lemma returned_addShortcut_one:
  "returned (addShortcut_one parse k x cb sc) \<longleftrightarrow> eventTypes k x \<noteq> [] \<or> parse x = None"
  by (auto simp: addShortcut_one_def registerShortcut_def addListener_def hasListeners_def Let_def
      split: option.splits)

lemma addShortcut_one_Threw:
  "addShortcut_one parse k x cb sc = Threw e k1 \<Longrightarrow> eventTypes k x = [] \<and> parse x = Some e"
  by (auto simp: addShortcut_one_def registerShortcut_def addListener_def hasListeners_def Let_def
      split: option.splits if_splits)

subsection \<open>The invariant is kept\<close>

lemma I1_addShortcut_one: "I1 k \<Longrightarrow> I1 (state_of (addShortcut_one parse k x cb sc))"
  by (simp add: I1_def eventTypes_addShortcut_one hostShortcuts_addShortcut_one)

lemma I1_removeShortcut_one: "I1 k \<Longrightarrow> I1 (removeShortcut_one k x cb sc)"
  by (simp add: I1_def eventTypes_removeShortcut_one hostShortcuts_removeShortcut_one)

lemma addShortcut_loop_Cons:
  "state_of (addShortcut_loop parse k (x # xs) cb sc) =
     (if returned (addShortcut_one parse k x cb sc)
      then state_of (addShortcut_loop parse (state_of (addShortcut_one parse k x cb sc)) xs cb sc)
      else state_of (addShortcut_one parse k x cb sc))"
  by (cases "addShortcut_one parse k x cb sc") simp_all

lemma I1_addShortcut_loop: "I1 k \<Longrightarrow> I1 (state_of (addShortcut_loop parse k xs cb sc))"
proof (induction xs arbitrary: k)
  case Nil
  then show ?case by simp
next
  case (Cons x xs)
  from Cons.prems have "I1 (state_of (addShortcut_one parse k x cb sc))"
    by (rule I1_addShortcut_one)
  with Cons.IH show ?case by (simp add: addShortcut_loop_Cons del: addShortcut_loop.simps)
qed

lemma I1_removeShortcut_loop: "I1 k \<Longrightarrow> I1 (removeShortcut_loop k xs cb sc)"
  by (induction xs arbitrary: k) (simp_all add: I1_removeShortcut_one)

lemma I1_new: "I1 (Keyboard_new w)"
  by (simp add: I1_def Keyboard_new_def KeyboardShortcutHandler_new_def)

lemma I1_perform: "I1 k \<Longrightarrow> I1 (state_of (perform parse k c))"
  by (cases c) (simp_all add: addShortcut_def removeShortcut_def I1_addShortcut_loop I1_removeShortcut_loop)

lemma I1_run_calls: "I1 k \<Longrightarrow> I1 (run_calls parse k cs)"
  by (induction cs arbitrary: k) (simp_all add: I1_perform)

subsection \<open>The calls the host receives\<close>

lemma addShortcut_one_nonempty:
  "eventTypes k d \<noteq> [] \<Longrightarrow> eventTypes (state_of (addShortcut_one parse k x cb sc)) d \<noteq> []"
  by (simp add: eventTypes_addShortcut_one)

lemma addShortcut_loop_nonempty:
  "eventTypes k d \<noteq> [] \<Longrightarrow> eventTypes (state_of (addShortcut_loop parse k xs cb sc)) d \<noteq> []"
proof (induction xs arbitrary: k)
  case Nil
  then show ?case by simp
next
  case (Cons x xs)
  from Cons.prems have "eventTypes (state_of (addShortcut_one parse k x cb sc)) d \<noteq> []"
    by (rule addShortcut_one_nonempty)
  with Cons.IH show ?case by (simp add: addShortcut_loop_Cons del: addShortcut_loop.simps)
qed

lemma removeShortcut_loop_empty:
  "eventTypes k d = [] \<Longrightarrow> eventTypes (removeShortcut_loop k xs cb sc) d = []"
proof (induction xs arbitrary: k)
  case Nil
  then show ?case by simp
next
  case (Cons x xs)
  from Cons.prems have "eventTypes (removeShortcut_one k x cb sc) d = []"
    by (auto simp: eventTypes_removeShortcut_one)
  then show ?case using Cons.IH by simp
qed

lemma addShortcut_loop_registers:
  "\<exists>cs. calls (keyHandler (state_of (addShortcut_loop parse k xs cb sc))) = calls (keyHandler k) @ cs \<and>
     (\<forall>d. eventTypes k d = [] \<longrightarrow> eventTypes (state_of (addShortcut_loop parse k xs cb sc)) d \<noteq> []
        \<longrightarrow> RegisterShortcut d d \<in> set cs)"
proof (induction xs arbitrary: k)
  case Nil
  then show ?case by simp
next
  case (Cons x xs)
  let ?k1 = "state_of (addShortcut_one parse k x cb sc)"
  let ?k2 = "state_of (addShortcut_loop parse ?k1 xs cb sc)"
  let ?cs1 = "if eventTypes k x = [] then [RegisterShortcut x x] else []"
  have c1: "calls (keyHandler ?k1) = calls (keyHandler k) @ ?cs1"
    by (rule calls_addShortcut_one)
  have r1: "RegisterShortcut d d \<in> set ?cs1" if "eventTypes k d = []" "eventTypes ?k1 d \<noteq> []" for d
    using that by (auto simp: eventTypes_addShortcut_one split: if_splits)
  show ?case
  proof (cases "returned (addShortcut_one parse k x cb sc)")
    case False
    then have "state_of (addShortcut_loop parse k (x # xs) cb sc) = ?k1"
      by (simp add: addShortcut_loop_Cons del: addShortcut_loop.simps)
    with c1 r1 show ?thesis by metis
  next
    case True
    then have eq: "state_of (addShortcut_loop parse k (x # xs) cb sc) = ?k2"
      by (simp add: addShortcut_loop_Cons del: addShortcut_loop.simps)
    from Cons.IH [of ?k1] obtain cs2 where
      c2: "calls (keyHandler ?k2) = calls (keyHandler ?k1) @ cs2" and
      r2: "\<And>d. eventTypes ?k1 d = [] \<Longrightarrow> eventTypes ?k2 d \<noteq> [] \<Longrightarrow> RegisterShortcut d d \<in> set cs2"
      by blast
    have "calls (keyHandler ?k2) = calls (keyHandler k) @ (?cs1 @ cs2)"
      using c1 c2 by simp
    moreover have "RegisterShortcut d d \<in> set (?cs1 @ cs2)"
      if "eventTypes k d = []" "eventTypes ?k2 d \<noteq> []" for d
    proof (cases "eventTypes ?k1 d = []")
      case True
      with r2 that show ?thesis by simp
    next
      case False
      with r1 that have "RegisterShortcut d d \<in> set ?cs1" by blast
      then show ?thesis by simp
    qed
    ultimately show ?thesis unfolding eq by blast
  qed
qed

lemma removeShortcut_loop_unregisters:
  "\<exists>cs. calls (keyHandler (removeShortcut_loop k xs cb sc)) = calls (keyHandler k) @ cs \<and>
     (\<forall>d. eventTypes k d \<noteq> [] \<longrightarrow> eventTypes (removeShortcut_loop k xs cb sc) d = []
        \<longrightarrow> UnregisterShortcut d \<in> set cs)"
proof (induction xs arbitrary: k)
  case Nil
  then show ?case by simp
next
  case (Cons x xs)
  let ?k1 = "removeShortcut_one k x cb sc"
  let ?k2 = "removeShortcut_loop ?k1 xs cb sc"
  let ?cs1 = "if remove1 (cb, sc) (eventTypes k x) = [] then [UnregisterShortcut x] else []"
  have c1: "calls (keyHandler ?k1) = calls (keyHandler k) @ ?cs1"
    by (rule calls_removeShortcut_one)
  have r1: "UnregisterShortcut d \<in> set ?cs1" if "eventTypes k d \<noteq> []" "eventTypes ?k1 d = []" for d
    using that by (auto simp: eventTypes_removeShortcut_one split: if_splits)
  from Cons.IH [of ?k1] obtain cs2 where
    c2: "calls (keyHandler ?k2) = calls (keyHandler ?k1) @ cs2" and
    r2: "\<And>d. eventTypes ?k1 d \<noteq> [] \<Longrightarrow> eventTypes ?k2 d = [] \<Longrightarrow> UnregisterShortcut d \<in> set cs2"
    by blast
  have "calls (keyHandler ?k2) = calls (keyHandler k) @ (?cs1 @ cs2)"
    using c1 c2 by simp
  moreover have "UnregisterShortcut d \<in> set (?cs1 @ cs2)"
    if "eventTypes k d \<noteq> []" "eventTypes ?k2 d = []" for d
  proof (cases "eventTypes ?k1 d = []")
    case False
    with r2 that show ?thesis by simp
  next
    case True
    with r1 that have "UnregisterShortcut d \<in> set ?cs1" by blast
    then show ?thesis by simp
  qed
  ultimately show ?case by (simp only: removeShortcut_loop.simps) blast
qed

lemma new_calls_append: "calls (keyHandler k') = calls (keyHandler k) @ cs \<Longrightarrow> new_calls k k' = cs"
  by (simp add: new_calls_def)

subsection \<open>Claim C1: invariant I1\<close>

text \<open>
  C1. Start from a new keyboard and make any sequence of \<^verbatim>\<open>addShortcut\<close> and
  \<^verbatim>\<open>removeShortcut\<close> calls (a call that throws included: the client goes on). In
  the keyboard \<open>k\<close> reached, and in the keyboard \<open>k'\<close> after one more call \<open>c\<close>, a
  descriptor is registered with the host if and only if its listener list is not empty
  (\<open>I1\<close>). A descriptor whose list goes from empty to non-empty during \<open>c\<close> does so
  in an \<^verbatim>\<open>addShortcut\<close>, which made the host's \<^verbatim>\<open>registerShortcut\<close> call for it; a
  descriptor whose list goes from non-empty to empty does so in a \<^verbatim>\<open>removeShortcut\<close>,
  which made the \<^verbatim>\<open>unregisterShortcut\<close> call for it.
\<close>

theorem host_registration_iff_listeners:
  fixes parse :: "string \<Rightarrow> 'e option" and w :: window and cs :: "shortcut_call list"
    and c :: shortcut_call
  defines "k \<equiv> run_calls parse (Keyboard_new w) cs"
  defines "k' \<equiv> state_of (perform parse k c)"
  shows "I1 k \<and> I1 k' \<and>
    (\<forall>d. eventTypes k d = [] \<and> eventTypes k' d \<noteq> [] \<longrightarrow>
        (\<exists>s cb sc. c = AddShortcut s cb sc) \<and> RegisterShortcut d d \<in> set (new_calls k k')) \<and>
    (\<forall>d. eventTypes k d \<noteq> [] \<and> eventTypes k' d = [] \<longrightarrow>
        (\<exists>s cb sc. c = RemoveShortcut s cb sc) \<and> UnregisterShortcut d \<in> set (new_calls k k'))"
proof -
  have i: "I1 k" unfolding k_def by (rule I1_run_calls [OF I1_new])
  then have i': "I1 k'" unfolding k'_def by (rule I1_perform)
  have rest: "(\<forall>d. eventTypes k d = [] \<and> eventTypes k' d \<noteq> [] \<longrightarrow>
        (\<exists>s cb sc. c = AddShortcut s cb sc) \<and> RegisterShortcut d d \<in> set (new_calls k k')) \<and>
    (\<forall>d. eventTypes k d \<noteq> [] \<and> eventTypes k' d = [] \<longrightarrow>
        (\<exists>s cb sc. c = RemoveShortcut s cb sc) \<and> UnregisterShortcut d \<in> set (new_calls k k'))"
  proof (cases c)
    case (AddShortcut s cb sc)
    then have eq: "k' = state_of (addShortcut_loop parse k (split s (CHR ''|'')) cb sc)"
      by (simp add: k'_def addShortcut_def)
    from addShortcut_loop_registers [of parse k "split s (CHR ''|'')" cb sc] obtain cs' where
      "calls (keyHandler k') = calls (keyHandler k) @ cs'" and
      "\<And>d. eventTypes k d = [] \<Longrightarrow> eventTypes k' d \<noteq> [] \<Longrightarrow> RegisterShortcut d d \<in> set cs'"
      unfolding eq by blast
    moreover have "eventTypes k' d \<noteq> []" if "eventTypes k d \<noteq> []" for d
      unfolding eq using that by (rule addShortcut_loop_nonempty)
    ultimately show ?thesis using AddShortcut by (auto simp: new_calls_append)
  next
    case (RemoveShortcut s cb sc)
    then have eq: "k' = removeShortcut_loop k (split s (CHR ''|'')) cb sc"
      by (simp add: k'_def removeShortcut_def)
    from removeShortcut_loop_unregisters [of k "split s (CHR ''|'')" cb sc] obtain cs' where
      "calls (keyHandler k') = calls (keyHandler k) @ cs'" and
      "\<And>d. eventTypes k d \<noteq> [] \<Longrightarrow> eventTypes k' d = [] \<Longrightarrow> UnregisterShortcut d \<in> set cs'"
      unfolding eq by blast
    moreover have "eventTypes k' d = []" if "eventTypes k d = []" for d
      unfolding eq using that by (rule removeShortcut_loop_empty)
    ultimately show ?thesis using RemoveShortcut by (auto simp: new_calls_append)
  qed
  from i i' rest show ?thesis by blast
qed

theorem host_registration_iff_listeners_witness:
  "I1 (Keyboard_new 0) \<and>
   I1 (state_of (perform accept_all (Keyboard_new 0) (AddShortcut ''ctrl+g'' 1 None))) \<and>
   eventTypes (Keyboard_new 0) ''ctrl+g'' = [] \<and>
   eventTypes (state_of (perform accept_all (Keyboard_new 0) (AddShortcut ''ctrl+g'' 1 None)))
     ''ctrl+g'' = [(1, None)] \<and>
   RegisterShortcut ''ctrl+g'' ''ctrl+g'' \<in> set (new_calls (Keyboard_new 0)
     (state_of (perform accept_all (Keyboard_new 0) (AddShortcut ''ctrl+g'' 1 None))))"
proof -
  let ?k = "Keyboard_new 0"
  let ?k' = "state_of (perform accept_all ?k (AddShortcut ''ctrl+g'' 1 None))"
  have before: "eventTypes ?k ''ctrl+g'' = []"
    by (simp add: Keyboard_new_def)
  have after: "eventTypes ?k' ''ctrl+g'' = [(1, None)]"
    by (simp add: keyboard_eval)
  from host_registration_iff_listeners [of accept_all 0 "[]" "AddShortcut ''ctrl+g'' 1 None"]
    before after
  show ?thesis by simp
qed

subsection \<open>Claim C10: the unregister call is unconditional\<close>

lemma removeShortcut_loop_other:
  "d \<notin> set xs \<Longrightarrow> eventTypes (removeShortcut_loop k xs cb sc) d = eventTypes k d"
  by (induction xs arbitrary: k) (simp_all add: eventTypes_removeShortcut_one)

lemma removeShortcut_loop_calls_prefix:
  "\<exists>cs. calls (keyHandler (removeShortcut_loop k xs cb sc)) = calls (keyHandler k) @ cs"
  using removeShortcut_loop_unregisters [of k xs cb sc] by blast

lemma removeShortcut_loop_unregisters_empty:
  "d \<in> set xs \<Longrightarrow> eventTypes (removeShortcut_loop k xs cb sc) d = [] \<Longrightarrow>
     \<exists>cs. calls (keyHandler (removeShortcut_loop k xs cb sc)) = calls (keyHandler k) @ cs \<and>
       UnregisterShortcut d \<in> set cs"
proof (induction xs arbitrary: k)
  case Nil
  then show ?case by simp
next
  case (Cons x xs)
  let ?k1 = "removeShortcut_one k x cb sc"
  let ?cs1 = "if remove1 (cb, sc) (eventTypes k x) = [] then [UnregisterShortcut x] else []"
  have c1: "calls (keyHandler ?k1) = calls (keyHandler k) @ ?cs1"
    by (rule calls_removeShortcut_one)
  show ?case
  proof (cases "d \<in> set xs")
    case True
    with Cons.IH [of ?k1] Cons.prems(2) obtain cs2 where
      "calls (keyHandler (removeShortcut_loop ?k1 xs cb sc)) = calls (keyHandler ?k1) @ cs2"
      "UnregisterShortcut d \<in> set cs2"
      by auto
    with c1 have "calls (keyHandler (removeShortcut_loop ?k1 xs cb sc)) = calls (keyHandler k) @ (?cs1 @ cs2)"
      "UnregisterShortcut d \<in> set (?cs1 @ cs2)"
      by simp_all
    then show ?thesis by (simp only: removeShortcut_loop.simps) blast
  next
    case False
    with Cons.prems(1) have dx: "d = x" by simp
    from False have "eventTypes (removeShortcut_loop ?k1 xs cb sc) d = eventTypes ?k1 d"
      by (rule removeShortcut_loop_other)
    with Cons.prems(2) dx have "remove1 (cb, sc) (eventTypes k x) = []"
      by (simp add: eventTypes_removeShortcut_one)
    then have in1: "UnregisterShortcut d \<in> set ?cs1" using dx by simp
    from removeShortcut_loop_calls_prefix [of ?k1 xs cb sc] obtain cs2 where
      "calls (keyHandler (removeShortcut_loop ?k1 xs cb sc)) = calls (keyHandler ?k1) @ cs2"
      by blast
    with c1 in1 have "calls (keyHandler (removeShortcut_loop ?k1 xs cb sc)) = calls (keyHandler k) @ (?cs1 @ cs2)"
      "UnregisterShortcut d \<in> set (?cs1 @ cs2)"
      by simp_all
    then show ?thesis by (simp only: removeShortcut_loop.simps) blast
  qed
qed

text \<open>
  C10. Whenever the listener list of a descriptor \<open>d\<close> of the call is empty after
  \<^verbatim>\<open>removeShortcut\<close>, the call has made the host's \<^verbatim>\<open>unregisterShortcut\<close> call for
  \<open>d\<close>. Nothing is asked of the state before: the descriptor may never have had a
  listener or a host registration.
\<close>

theorem removeShortcut_unregisters_whenever_empty:
  assumes "d \<in> set (split s (CHR ''|''))"
    and "eventTypes (removeShortcut k s cb sc) d = []"
  shows "UnregisterShortcut d \<in> set (new_calls k (removeShortcut k s cb sc))"
proof -
  from removeShortcut_loop_unregisters_empty [of d "split s (CHR ''|'')" k cb sc] assms
  obtain cs where "calls (keyHandler (removeShortcut k s cb sc)) = calls (keyHandler k) @ cs"
    and "UnregisterShortcut d \<in> set cs"
    by (auto simp: removeShortcut_def)
  then show ?thesis by (simp add: new_calls_append)
qed

theorem removeShortcut_unregisters_whenever_empty_witness:
  "''ctrl+g'' \<in> set (split ''ctrl+g'' (CHR ''|'')) \<and>
   eventTypes (Keyboard_new 0) ''ctrl+g'' = [] \<and>
   hostShortcuts (keyHandler (Keyboard_new 0)) ''ctrl+g'' = None \<and>
   calls (keyHandler (Keyboard_new 0)) = [] \<and>
   eventTypes (removeShortcut (Keyboard_new 0) ''ctrl+g'' 1 None) ''ctrl+g'' = [] \<and>
   UnregisterShortcut ''ctrl+g'' \<in>
     set (new_calls (Keyboard_new 0) (removeShortcut (Keyboard_new 0) ''ctrl+g'' 1 None))"
proof -
  have a: "''ctrl+g'' \<in> set (split ''ctrl+g'' (CHR ''|''))"
    by (simp add: split_def)
  have b: "eventTypes (removeShortcut (Keyboard_new 0) ''ctrl+g'' 1 None) ''ctrl+g'' = []"
    by (simp add: removeShortcut_def split_def eventTypes_removeShortcut_one Keyboard_new_def)
  from removeShortcut_unregisters_whenever_empty [OF a b] a b
  show ?thesis by (simp add: Keyboard_new_def KeyboardShortcutHandler_new_def)
qed

subsection \<open>Claim C4: removing what is not there\<close>

lemma filter_remove1_other: "filter (\<lambda>l. l \<noteq> x) (remove1 x xs) = filter (\<lambda>l. l \<noteq> x) xs"
  by (induction xs) auto

lemma removeShortcut_loop_absent:
  "\<forall>d\<in>set xs. l \<notin> set (eventTypes k d) \<Longrightarrow>
     eventTypes (removeShortcut_loop k xs (fst l) (snd l)) = eventTypes k"
proof (induction xs arbitrary: k)
  case Nil
  then show ?case by simp
next
  case (Cons x xs)
  from Cons.prems have "remove1 (fst l, snd l) (eventTypes k x) = eventTypes k x"
    by (simp add: remove1_idem)
  then have e1: "eventTypes (removeShortcut_one k x (fst l) (snd l)) = eventTypes k"
    by (simp add: eventTypes_removeShortcut_one)
  with Cons.prems have "\<forall>d\<in>set xs. l \<notin> set (eventTypes (removeShortcut_one k x (fst l) (snd l)) d)"
    by simp
  from Cons.IH [OF this] e1 show ?case by simp
qed

lemma removeShortcut_loop_others:
  "filter (\<lambda>l. l \<noteq> (cb, sc)) (eventTypes (removeShortcut_loop k xs cb sc) d) =
     filter (\<lambda>l. l \<noteq> (cb, sc)) (eventTypes k d)"
  by (induction xs arbitrary: k) (simp_all add: eventTypes_removeShortcut_one filter_remove1_other)

lemma eventTypes_two_listeners:
  "eventTypes two_listeners = (\<lambda>eventType. [])(''ctrl+g'' := [(1, None), (2, None)])"
  by (simp add: two_listeners_def keyboard_eval)

text \<open>
  C4. When no descriptor of the call has the pair of callback and scope among its
  listeners, \<^verbatim>\<open>removeShortcut\<close> returns and every listener list is as before. Removing
  the same shortcut twice returns both times, and in every listener list the entries of
  other callbacks or scopes, and the lists of other descriptors, are what they were.
\<close>

theorem removeShortcut_absent_is_noop:
  fixes parse :: "string \<Rightarrow> 'e option"
  shows "((\<forall>d\<in>set (split s (CHR ''|'')). (cb, sc) \<notin> set (eventTypes k d)) \<longrightarrow>
      perform parse k (RemoveShortcut s cb sc) = Returned (removeShortcut k s cb sc) \<and>
      eventTypes (removeShortcut k s cb sc) = eventTypes k) \<and>
    returned (and_then (perform parse k (RemoveShortcut s cb sc))
                (\<lambda>k1. perform parse k1 (RemoveShortcut s cb sc))) \<and>
    (\<forall>d. filter (\<lambda>l. l \<noteq> (cb, sc)) (eventTypes (removeShortcut (removeShortcut k s cb sc) s cb sc) d) =
         filter (\<lambda>l. l \<noteq> (cb, sc)) (eventTypes k d)) \<and>
    (\<forall>d. d \<notin> set (split s (CHR ''|'')) \<longrightarrow>
         eventTypes (removeShortcut (removeShortcut k s cb sc) s cb sc) d = eventTypes k d)"
  using removeShortcut_loop_absent [of "split s (CHR ''|'')" "(cb, sc)" k]
  by (simp add: removeShortcut_def removeShortcut_loop_others removeShortcut_loop_other)

theorem removeShortcut_absent_is_noop_witness:
  "(3, None) \<notin> set (eventTypes two_listeners ''ctrl+g'') \<and>
   perform accept_all two_listeners (RemoveShortcut ''ctrl+g'' 3 None) =
     Returned (removeShortcut two_listeners ''ctrl+g'' 3 None) \<and>
   eventTypes (removeShortcut two_listeners ''ctrl+g'' 3 None) = eventTypes two_listeners \<and>
   eventTypes (removeShortcut two_listeners ''ctrl+g'' 3 None) ''ctrl+g'' = [(1, None), (2, None)]"
proof -
  have absent: "\<forall>d\<in>set (split ''ctrl+g'' (CHR ''|'')). (3, None) \<notin> set (eventTypes two_listeners d)"
    by (simp add: split_def eventTypes_two_listeners)
  from removeShortcut_absent_is_noop [of "''ctrl+g''" 3 None two_listeners accept_all] absent
  show ?thesis by (simp add: eventTypes_two_listeners)
qed

subsection \<open>Firing\<close>

lemma invoked_emitEvent_loop: "invoked (emitEvent_loop run d ls) = invoked d @ ls"
  by (induction ls arbitrary: d) (auto split: outcome.splits)

lemma emitted_emitEvent_loop: "emitted (emitEvent_loop run d ls) = emitted d"
  by (induction ls arbitrary: d) (auto split: outcome.splits)

lemma emitter_emitEvent_loop:
  "emitter (emitEvent_loop run d ls) = foldl (after_call run) (emitter d) ls"
  by (induction ls arbitrary: d) (auto simp: after_call_def split: outcome.splits)

lemma reported_emitEvent_loop:
  "reported (emitEvent_loop run d ls) =
     reported d @ List.map_filter thrown (outcomes run (emitter d) ls)"
  by (induction ls arbitrary: d) (auto simp: after_call_def split: outcome.splits)



lemma eventTypes_three_listeners:
  "eventTypes three_listeners ''ctrl+g'' = [(1, None), (2, None), (3, None)]"
  by (simp add: three_listeners_def keyboard_eval)

subsection \<open>Claim C7: invariant I2\<close>

lemma eventTypes_called_three_listeners: "eventTypes three_listeners ''called'' = []"
  by (simp add: three_listeners_def keyboard_eval)

text \<open>
  C7. A key event the host delivers with identifier \<open>D\<close> makes \<^verbatim>\<open>keyPressed_\<close> emit
  one event, named \<open>D\<close>, and the listeners invoked for it are the listeners bound to
  \<open>D\<close> when the event arrives: each of them is called once, in the order of their
  registration, on the keyboard as the listener before it left it. So the keyboard after
  the event is the result of those calls in that order, and the exceptions reported are
  the ones those calls threw.
\<close>

theorem keyPressed_invokes_each_listener_once:
  "emitted (keyPressed run k e) = [identifier e] \<and>
   invoked (keyPressed run k e) = eventTypes k (identifier e) \<and>
   emitter (keyPressed run k e) = foldl (after_call run) k (eventTypes k (identifier e)) \<and>
   reported (keyPressed run k e) =
     List.map_filter thrown (outcomes run k (eventTypes k (identifier e)))"
  by (simp add: keyPressed_def emitEvent_def invoked_emitEvent_loop emitted_emitEvent_loop
      emitter_emitEvent_loop reported_emitEvent_loop)

theorem keyPressed_invokes_each_listener_once_witness:
  "emitted (keyPressed (notes_call 2) three_listeners \<lparr>identifier = ''ctrl+g''\<rparr>) = [''ctrl+g''] \<and>
   invoked (keyPressed (notes_call 2) three_listeners \<lparr>identifier = ''ctrl+g''\<rparr>) =
     [(1, None), (2, None), (3, None)] \<and>
   eventTypes (emitter (keyPressed (notes_call 2) three_listeners \<lparr>identifier = ''ctrl+g''\<rparr>))
     ''called'' = [(1, None), (2, None), (3, None)] \<and>
   reported (keyPressed (notes_call 2) three_listeners \<lparr>identifier = ''ctrl+g''\<rparr>) =
     [''listener failed'']"
  using keyPressed_invokes_each_listener_once
    [of "notes_call 2" three_listeners "\<lparr>identifier = ''ctrl+g''\<rparr>"]
  by (simp add: eventTypes_three_listeners eventTypes_called_three_listeners after_call_def
      notes_call_def addListener_def)

subsection \<open>Claim C6: a listener that throws\<close>



subsection \<open>Claim C8: registering the same triple twice\<close>

lemma returned_addShortcut_loop_Cons:
  "returned (addShortcut_loop parse k (x # xs) cb sc) \<longleftrightarrow>
     returned (addShortcut_one parse k x cb sc) \<and>
     returned (addShortcut_loop parse (state_of (addShortcut_one parse k x cb sc)) xs cb sc)"
  by (cases "addShortcut_one parse k x cb sc") simp_all

lemma eventTypes_addShortcut_loop:
  "returned (addShortcut_loop parse k xs cb sc) \<Longrightarrow>
     eventTypes (state_of (addShortcut_loop parse k xs cb sc)) d =
       eventTypes k d @ replicate (count_list xs d) (cb, sc)"
proof (induction xs arbitrary: k)
  case Nil
  then show ?case by simp
next
  case (Cons x xs)
  let ?k1 = "state_of (addShortcut_one parse k x cb sc)"
  from Cons.prems have r1: "returned (addShortcut_one parse k x cb sc)"
    and r2: "returned (addShortcut_loop parse ?k1 xs cb sc)"
    by (simp_all add: returned_addShortcut_loop_Cons del: addShortcut_loop.simps)
  from r1 have e1: "eventTypes ?k1 = (eventTypes k)(x := eventTypes k x @ [(cb, sc)])"
    by (auto simp: eventTypes_addShortcut_one returned_addShortcut_one)
  from r1 have "state_of (addShortcut_loop parse k (x # xs) cb sc) =
      state_of (addShortcut_loop parse ?k1 xs cb sc)"
    by (simp add: addShortcut_loop_Cons del: addShortcut_loop.simps)
  with Cons.IH [OF r2] e1 show ?case
    by (simp add: replicate_append_same)
qed

lemma addShortcut_loop_all_listened:
  "\<forall>x\<in>set xs. eventTypes k x \<noteq> [] \<Longrightarrow>
     returned (addShortcut_loop parse k xs cb sc) \<and>
     calls (keyHandler (state_of (addShortcut_loop parse k xs cb sc))) = calls (keyHandler k)"
proof (induction xs arbitrary: k)
  case Nil
  then show ?case by simp
next
  case (Cons x xs)
  let ?k1 = "state_of (addShortcut_one parse k x cb sc)"
  from Cons.prems have x: "eventTypes k x \<noteq> []" by simp
  then have r1: "returned (addShortcut_one parse k x cb sc)"
    by (simp add: returned_addShortcut_one)
  from x have c1: "calls (keyHandler ?k1) = calls (keyHandler k)"
    by (simp add: calls_addShortcut_one)
  from Cons.prems have "\<forall>y\<in>set xs. eventTypes ?k1 y \<noteq> []"
    by (simp add: addShortcut_one_nonempty)
  from Cons.IH [OF this] r1 c1 show ?case
    by (simp add: returned_addShortcut_loop_Cons addShortcut_loop_Cons del: addShortcut_loop.simps)
qed

lemma count_list_pos: "x \<in> set xs \<Longrightarrow> 0 < count_list xs x"
  by (induction xs) auto

text \<open>
  C8, as amended. After an \<^verbatim>\<open>addShortcut\<close> that returned, a second call with the same
  descriptor, callback and scope returns too and makes no host call; every descriptor of
  the call has gained the pair of callback and scope once more, as a second entry after
  the first. Firing a descriptor calls its stored entries one by one, in order, each on
  the keyboard the one before left, so both entries fire.
\<close>

theorem duplicate_registration_is_stored_and_fires:
  fixes parse :: "string \<Rightarrow> 'e option"
  assumes first: "returned (addShortcut parse k s cb sc)"
  defines "k1 \<equiv> state_of (addShortcut parse k s cb sc)"
  defines "k2 \<equiv> state_of (addShortcut parse k1 s cb sc)"
  shows "returned (addShortcut parse k1 s cb sc) \<and>
    new_calls k1 k2 = [] \<and>
    (\<forall>d. eventTypes k2 d =
       eventTypes k d @ replicate (count_list (split s (CHR ''|'')) d) (cb, sc)
         @ replicate (count_list (split s (CHR ''|'')) d) (cb, sc)) \<and>
    (\<forall>d. invoked (keyPressed run k2 \<lparr>identifier = d\<rparr>) = eventTypes k2 d \<and>
         emitter (keyPressed run k2 \<lparr>identifier = d\<rparr>) =
           foldl (after_call run) k2
             (eventTypes k d @ replicate (count_list (split s (CHR ''|'')) d) (cb, sc)
                @ replicate (count_list (split s (CHR ''|'')) d) (cb, sc)))"
proof -
  let ?xs = "split s (CHR ''|'')"
  from first have r: "returned (addShortcut_loop parse k ?xs cb sc)"
    by (simp add: addShortcut_def)
  have e1: "eventTypes k1 d = eventTypes k d @ replicate (count_list ?xs d) (cb, sc)" for d
    unfolding k1_def addShortcut_def by (rule eventTypes_addShortcut_loop [OF r])
  have "\<forall>x\<in>set ?xs. eventTypes k1 x \<noteq> []"
    using count_list_pos [of _ ?xs] by (auto simp: e1)
  from addShortcut_loop_all_listened [OF this, of parse cb sc]
  have r2: "returned (addShortcut parse k1 s cb sc)"
    and c2: "calls (keyHandler k2) = calls (keyHandler k1)"
    by (simp_all add: addShortcut_def k2_def)
  from r2 have e2: "eventTypes k2 d = eventTypes k1 d @ replicate (count_list ?xs d) (cb, sc)" for d
    unfolding k2_def addShortcut_def by (rule eventTypes_addShortcut_loop)
  from r2 c2 e1 e2 show ?thesis
    by (simp add: new_calls_def keyPressed_def emitEvent_def invoked_emitEvent_loop
        emitter_emitEvent_loop)
qed

theorem duplicate_registration_is_stored_and_fires_witness:
  "returned (addShortcut accept_all (Keyboard_new 0) ''ctrl+g'' 1 None) \<and>
   returned (addShortcut accept_all
     (state_of (addShortcut accept_all (Keyboard_new 0) ''ctrl+g'' 1 None)) ''ctrl+g'' 1 None) \<and>
   invoked (keyPressed (notes_call 0)
     (state_of (addShortcut accept_all
        (state_of (addShortcut accept_all (Keyboard_new 0) ''ctrl+g'' 1 None)) ''ctrl+g'' 1 None))
     \<lparr>identifier = ''ctrl+g''\<rparr>) = [(1, None), (1, None)] \<and>
   eventTypes (emitter (keyPressed (notes_call 0)
     (state_of (addShortcut accept_all
        (state_of (addShortcut accept_all (Keyboard_new 0) ''ctrl+g'' 1 None)) ''ctrl+g'' 1 None))
     \<lparr>identifier = ''ctrl+g''\<rparr>)) ''called'' = [(1, None), (1, None)]"
proof -
  let ?k2 = "state_of (addShortcut accept_all
        (state_of (addShortcut accept_all (Keyboard_new 0) ''ctrl+g'' 1 None)) ''ctrl+g'' 1 None)"
  have first: "returned (addShortcut accept_all (Keyboard_new 0) ''ctrl+g'' 1 None)"
    by (simp add: keyboard_eval)
  have e: "eventTypes (Keyboard_new 0) ''ctrl+g'' = []"
    by (simp add: Keyboard_new_def)
  have c: "count_list (split ''ctrl+g'' (CHR ''|'')) ''ctrl+g'' = 1"
    by (simp add: split_def)
  have called: "eventTypes ?k2 ''called'' = []"
    by (simp add: keyboard_eval)
  note t = duplicate_registration_is_stored_and_fires [OF first, where run = "notes_call 0"]
  from t have second: "returned (addShortcut accept_all
      (state_of (addShortcut accept_all (Keyboard_new 0) ''ctrl+g'' 1 None)) ''ctrl+g'' 1 None)"
    by (rule conjunct1)
  from t have stored: "eventTypes ?k2 ''ctrl+g'' = [(1, None), (1, None)]"
    by (simp add: e c)
  from t have "invoked (keyPressed (notes_call 0) ?k2 \<lparr>identifier = ''ctrl+g''\<rparr>) =
      eventTypes ?k2 ''ctrl+g''"
    by blast
  with stored have inv: "invoked (keyPressed (notes_call 0) ?k2 \<lparr>identifier = ''ctrl+g''\<rparr>) =
      [(1, None), (1, None)]"
    by simp
  from t have "emitter (keyPressed (notes_call 0) ?k2 \<lparr>identifier = ''ctrl+g''\<rparr>) =
      foldl (after_call (notes_call 0)) ?k2 [(1, None), (1, None)]"
    by (simp add: e c)
  then have eff: "eventTypes (emitter (keyPressed (notes_call 0) ?k2 \<lparr>identifier = ''ctrl+g''\<rparr>))
      ''called'' = [(1, None), (1, None)]"
    using called by (simp add: after_call_def notes_call_def addListener_def)
  from first second inv eff show ?thesis by (intro conjI)
qed

text \<open>
  The claim as the spec words it ("for every triple ... raises no error") fails when the
  host rejects the descriptor: the first call throws and stores nothing, and the second
  call with the same triple throws the same exception.
\<close>

theorem second_addShortcut_raises_counterexample:
  "thrown (addShortcut reject_marked (Keyboard_new 0) ''?x'' 1 None) =
     Some ''Invalid keyboard shortcut ?x'' \<and>
   thrown (addShortcut reject_marked
     (state_of (addShortcut reject_marked (Keyboard_new 0) ''?x'' 1 None)) ''?x'' 1 None) =
     Some ''Invalid keyboard shortcut ?x'' \<and>
   eventTypes (state_of (addShortcut reject_marked
     (state_of (addShortcut reject_marked (Keyboard_new 0) ''?x'' 1 None)) ''?x'' 1 None)) ''?x'' = []"
  by (simp add: keyboard_eval)

subsection \<open>Claim C2: compound descriptors\<close>

lemma outcome_case_id: "(case r of Returned k \<Rightarrow> Returned k | Threw e k \<Rightarrow> Threw e k) = r"
  by (cases r) simp_all

lemma addShortcut_plain:
  "split x (CHR ''|'') = [x] \<Longrightarrow> addShortcut parse k x cb sc = addShortcut_one parse k x cb sc"
  by (cases "addShortcut_one parse k x cb sc") (simp_all add: addShortcut_def)

lemma add_separately_loop:
  "\<forall>x\<in>set xs. split x (CHR ''|'') = [x] \<Longrightarrow>
     add_separately parse k xs cb sc = addShortcut_loop parse k xs cb sc"
proof (induction xs arbitrary: k)
  case Nil
  then show ?case by simp
next
  case (Cons x xs)
  then show ?case
    by (cases "addShortcut_one parse k x cb sc") (simp_all add: addShortcut_plain)
qed

text \<open>
  C2, as amended. \<^verbatim>\<open>addShortcut\<close> with a compound descriptor has the outcome (the
  keyboard, and the exception if any) of calling \<^verbatim>\<open>addShortcut\<close> for each individual
  descriptor, from left to right, with the same callback and scope. When it returns,
  firing a descriptor invokes the listeners stored before the call and then the
  callback once for each time the descriptor occurs in the compound descriptor: once
  when it occurs once, not at all when it does not occur. The keyboard after the firing
  is the result of those calls, made in that order.
\<close>

theorem compound_descriptor_is_separate_registrations:
  fixes parse :: "string \<Rightarrow> 'e option"
  shows "addShortcut parse k s cb sc = add_separately parse k (split s (CHR ''|'')) cb sc \<and>
    (returned (addShortcut parse k s cb sc) \<longrightarrow>
       (\<forall>d. invoked (keyPressed run (state_of (addShortcut parse k s cb sc)) \<lparr>identifier = d\<rparr>) =
            eventTypes k d @ replicate (count_list (split s (CHR ''|'')) d) (cb, sc) \<and>
          emitter (keyPressed run (state_of (addShortcut parse k s cb sc)) \<lparr>identifier = d\<rparr>) =
            foldl (after_call run) (state_of (addShortcut parse k s cb sc))
              (eventTypes k d @ replicate (count_list (split s (CHR ''|'')) d) (cb, sc))))"
proof -
  have "\<forall>x\<in>set (split s (CHR ''|'')). split x (CHR ''|'') = [x]"
    by (simp add: split_segment_plain)
  then have "add_separately parse k (split s (CHR ''|'')) cb sc = addShortcut parse k s cb sc"
    unfolding addShortcut_def by (rule add_separately_loop)
  moreover have "eventTypes (state_of (addShortcut parse k s cb sc)) d =
      eventTypes k d @ replicate (count_list (split s (CHR ''|'')) d) (cb, sc)"
    if "returned (addShortcut parse k s cb sc)" for d
    using that eventTypes_addShortcut_loop [of parse k "split s (CHR ''|'')" cb sc d]
    by (simp add: addShortcut_def)
  ultimately show ?thesis
    by (simp add: keyPressed_def emitEvent_def invoked_emitEvent_loop emitter_emitEvent_loop)
qed

theorem compound_descriptor_is_separate_registrations_witness:
  "returned (addShortcut accept_all (Keyboard_new 0) ''ctrl+g|ctrl+h'' 1 None) \<and>
   addShortcut accept_all (Keyboard_new 0) ''ctrl+g|ctrl+h'' 1 None =
     add_separately accept_all (Keyboard_new 0) [''ctrl+g'', ''ctrl+h''] 1 None \<and>
   invoked (keyPressed (notes_call 0)
     (state_of (addShortcut accept_all (Keyboard_new 0) ''ctrl+g|ctrl+h'' 1 None))
     \<lparr>identifier = ''ctrl+g''\<rparr>) = [(1, None)] \<and>
   eventTypes (emitter (keyPressed (notes_call 0)
     (state_of (addShortcut accept_all (Keyboard_new 0) ''ctrl+g|ctrl+h'' 1 None))
     \<lparr>identifier = ''ctrl+g''\<rparr>)) ''called'' = [(1, None)] \<and>
   eventTypes (emitter (keyPressed (notes_call 0)
     (state_of (addShortcut accept_all (Keyboard_new 0) ''ctrl+g|ctrl+h'' 1 None))
     \<lparr>identifier = ''ctrl+h''\<rparr>)) ''called'' = [(1, None)]"
proof -
  let ?k' = "state_of (addShortcut accept_all (Keyboard_new 0) ''ctrl+g|ctrl+h'' 1 None)"
  have r: "returned (addShortcut accept_all (Keyboard_new 0) ''ctrl+g|ctrl+h'' 1 None)"
    by (simp add: keyboard_eval)
  have s: "split ''ctrl+g|ctrl+h'' (CHR ''|'') = [''ctrl+g'', ''ctrl+h'']"
    by (simp add: split_def)
  have e: "eventTypes (Keyboard_new 0) d = []" for d
    by (simp add: Keyboard_new_def)
  have called: "eventTypes ?k' ''called'' = []"
    by (simp add: keyboard_eval)
  note t = compound_descriptor_is_separate_registrations
    [where parse = accept_all and k = "Keyboard_new 0" and s = "''ctrl+g|ctrl+h''" and cb = 1
       and sc = None and run = "notes_call 0"]
  from t have eq: "addShortcut accept_all (Keyboard_new 0) ''ctrl+g|ctrl+h'' 1 None =
      add_separately accept_all (Keyboard_new 0) [''ctrl+g'', ''ctrl+h''] 1 None"
    unfolding s by (rule conjunct1)
  from t r have fired:
    "invoked (keyPressed (notes_call 0) ?k' \<lparr>identifier = d\<rparr>) =
       eventTypes (Keyboard_new 0) d @ replicate (count_list [''ctrl+g'', ''ctrl+h''] d) (1, None) \<and>
     emitter (keyPressed (notes_call 0) ?k' \<lparr>identifier = d\<rparr>) =
       foldl (after_call (notes_call 0)) ?k'
         (eventTypes (Keyboard_new 0) d @ replicate (count_list [''ctrl+g'', ''ctrl+h''] d) (1, None))"
    for d
    unfolding s by blast
  from fired [of "''ctrl+g''"]
  have g: "invoked (keyPressed (notes_call 0) ?k' \<lparr>identifier = ''ctrl+g''\<rparr>) = [(1, None)]"
    by (simp add: e)
  from fired [of "''ctrl+g''"]
  have "emitter (keyPressed (notes_call 0) ?k' \<lparr>identifier = ''ctrl+g''\<rparr>) =
      foldl (after_call (notes_call 0)) ?k' [(1, None)]"
    by (simp add: e)
  then have g': "eventTypes (emitter (keyPressed (notes_call 0) ?k' \<lparr>identifier = ''ctrl+g''\<rparr>))
      ''called'' = [(1, None)]"
    using called by (simp add: after_call_def notes_call_def addListener_def)
  from fired [of "''ctrl+h''"]
  have "emitter (keyPressed (notes_call 0) ?k' \<lparr>identifier = ''ctrl+h''\<rparr>) =
      foldl (after_call (notes_call 0)) ?k' [(1, None)]"
    by (simp add: e)
  then have h': "eventTypes (emitter (keyPressed (notes_call 0) ?k' \<lparr>identifier = ''ctrl+h''\<rparr>))
      ''called'' = [(1, None)]"
    using called by (simp add: after_call_def notes_call_def addListener_def)
  from r eq g g' h' show ?thesis by (intro conjI)
qed

text \<open>
  The claim as the spec words it ("invokes the callback once") fails for a descriptor
  that occurs twice in the compound descriptor, and for a callback that was stored for
  the descriptor before the call: in both cases firing \<^verbatim>\<open>ctrl+g\<close> invokes the
  callback twice.
\<close>

theorem compound_descriptor_fires_once_counterexample:
  "addShortcut accept_all (Keyboard_new 0) ''ctrl+g|ctrl+g'' 1 None =
     add_separately accept_all (Keyboard_new 0) [''ctrl+g'', ''ctrl+g''] 1 None \<and>
   returned (addShortcut accept_all (Keyboard_new 0) ''ctrl+g|ctrl+g'' 1 None) \<and>
   invoked (keyPressed quiet (state_of (addShortcut accept_all (Keyboard_new 0) ''ctrl+g|ctrl+g'' 1 None))
     \<lparr>identifier = ''ctrl+g''\<rparr>) = [(1, None), (1, None)] \<and>
   eventTypes (emitter (keyPressed (notes_call 0)
     (state_of (addShortcut accept_all (Keyboard_new 0) ''ctrl+g|ctrl+g'' 1 None))
     \<lparr>identifier = ''ctrl+g''\<rparr>)) ''called'' = [(1, None), (1, None)] \<and>
   returned (addShortcut accept_all two_listeners ''ctrl+g|ctrl+h'' 1 None) \<and>
   invoked (keyPressed quiet (state_of (addShortcut accept_all two_listeners ''ctrl+g|ctrl+h'' 1 None))
     \<lparr>identifier = ''ctrl+g''\<rparr>) = [(1, None), (2, None), (1, None)] \<and>
   eventTypes (emitter (keyPressed (notes_call 0)
     (state_of (addShortcut accept_all two_listeners ''ctrl+g|ctrl+h'' 1 None))
     \<lparr>identifier = ''ctrl+g''\<rparr>)) ''called'' = [(1, None), (2, None), (1, None)]"
  by (simp add: two_listeners_def keyboard_eval keyPressed_def emitEvent_def quiet_def
      notes_call_def)

subsection \<open>Claim C3: disposing a scope\<close>

lemma eventTypes_removeShortcut_one_at:
  "eventTypes (removeShortcut_one k x cb sc) d =
     (if d = x then remove1 (cb, sc) (eventTypes k d) else eventTypes k d)"
  by (simp add: eventTypes_removeShortcut_one)

lemma mset_removeShortcut_loop:
  "mset (eventTypes (removeShortcut_loop k xs cb sc) d) =
     mset (eventTypes k d) - replicate_mset (count_list xs d) (cb, sc)"
  by (induction xs arbitrary: k) (simp_all add: eventTypes_removeShortcut_one_at)

lemma mset_recorded_segments:
  "mset (map snd (filter (\<lambda>p. fst p = d) (map (\<lambda>x. (x, l)) xs))) = replicate_mset (count_list xs d) l"
  by (induction xs) simp_all

lemma mset_disposeInternal_loop:
  "mset (eventTypes (disposeInternal_loop k ts) d) =
     mset (eventTypes k d) -
     mset (map snd (filter (\<lambda>p. fst p = d)
       (concat (map (\<lambda>t. map (\<lambda>x. (x, snd t)) (split (fst t) (CHR ''|''))) ts))))"
proof (induction ts arbitrary: k)
  case Nil
  then show ?case by simp
next
  case (Cons t ts)
  have "mset (eventTypes (removeShortcut k (fst t) (fst (snd t)) (snd (snd t))) d) =
      mset (eventTypes k d) - replicate_mset (count_list (split (fst t) (CHR ''|'')) d) (snd t)"
    by (simp add: removeShortcut_def mset_removeShortcut_loop)
  with Cons.IH show ?case
    by (simp add: mset_recorded_segments del: mset_map mset_filter)
qed

lemma filter_remove1_kept: "\<not> P x \<Longrightarrow> filter P (remove1 x xs) = filter P xs"
  by (induction xs) auto

lemma filter_removeShortcut_loop:
  "d \<in> set xs \<longrightarrow> \<not> P (cb, sc) \<Longrightarrow>
     filter P (eventTypes (removeShortcut_loop k xs cb sc) d) = filter P (eventTypes k d)"
  by (induction xs arbitrary: k) (auto simp: eventTypes_removeShortcut_one_at filter_remove1_kept)

lemma filter_disposeInternal_loop:
  "\<forall>t\<in>set ts. d \<in> set (split (fst t) (CHR ''|'')) \<longrightarrow> \<not> P (snd t) \<Longrightarrow>
     filter P (eventTypes (disposeInternal_loop k ts) d) = filter P (eventTypes k d)"
proof (induction ts arbitrary: k)
  case Nil
  then show ?case by simp
next
  case (Cons t ts)
  from Cons.prems have "d \<in> set (split (fst t) (CHR ''|'')) \<longrightarrow> \<not> P (fst (snd t), snd (snd t))"
    by simp
  then have "filter P (eventTypes (removeShortcut k (fst t) (fst (snd t)) (snd (snd t))) d) =
      filter P (eventTypes k d)"
    unfolding removeShortcut_def by (rule filter_removeShortcut_loop)
  with Cons.IH Cons.prems show ?case by simp
qed

lemma recorded_triples_member:
  "t \<in> set (listeners ks) \<Longrightarrow> d \<in> set (split (fst t) (CHR ''|'')) \<Longrightarrow>
     (d, snd t) \<in> set (recorded_triples ks)"
  by (auto simp: recorded_triples_def)

lemma fst_KeyboardScope_addShortcut:
  "fst (state_of (KeyboardScope_addShortcut parse st s cb sc)) =
     (fst st)\<lparr>listeners := listeners (fst st) @ [(s, cb, sc)]\<rparr>"
  by (cases "addShortcut parse (snd st) s cb sc") (simp_all add: KeyboardScope_addShortcut_def)

lemma snd_KeyboardScope_addShortcut:
  "snd (state_of (KeyboardScope_addShortcut parse st s cb sc)) =
     state_of (addShortcut parse (snd st) s cb sc)"
  by (cases "addShortcut parse (snd st) s cb sc") (simp_all add: KeyboardScope_addShortcut_def)

lemma scoped_three_listeners:
  "listeners (fst scoped_three) =
     [(''ctrl+g'', 7, None), (''ctrl+h'', 8, Some 5), (''ctrl+g|ctrl+j'', 9, None)]"
  by (simp add: scoped_three_def fst_KeyboardScope_addShortcut KeyboardScope_new_def)

lemma scoped_three_eventTypes:
  "eventTypes (snd scoped_three) =
     (\<lambda>eventType. [])(''ctrl+h'' := [(8, Some 5)],
        ''ctrl+g'' := [(1, None), (2, None), (7, None), (9, None)], ''ctrl+j'' := [(9, None)])"
  by (simp add: scoped_three_def snd_KeyboardScope_addShortcut two_listeners_def keyboard_eval)

lemma scoped_three_recorded_for:
  "recorded_for (fst scoped_three) ''ctrl+g'' = [(7, None), (9, None)]"
  by (simp add: recorded_for_def recorded_triples_def scoped_three_listeners split_def)

text \<open>
  C3. Disposing a scope leaves the scope's own list as it is and takes from the keyboard
  the triples the scope recorded: for every descriptor, the listeners after the disposal
  are the listeners before it less the recorded ones, counted with multiplicity (a
  recorded triple takes one matching entry away, if there is one). The listeners of a
  descriptor that the scope did not record for it are the same as before, in the same
  order. A scope that recorded nothing leaves the keyboard, host calls included,
  untouched. What is recorded is what the scope's \<^verbatim>\<open>addShortcut\<close> was called with.
\<close>

theorem dispose_removes_exactly_the_recorded:
  fixes parse :: "string \<Rightarrow> 'e option"
  shows "fst (disposeInternal (ks, k)) = ks \<and>
    (\<forall>d. mset (eventTypes (snd (disposeInternal (ks, k))) d) =
           mset (eventTypes k d) - mset (recorded_for ks d)) \<and>
    (\<forall>d. filter (\<lambda>l. (d, l) \<notin> set (recorded_triples ks)) (eventTypes (snd (disposeInternal (ks, k))) d) =
           filter (\<lambda>l. (d, l) \<notin> set (recorded_triples ks)) (eventTypes k d)) \<and>
    (listeners ks = [] \<longrightarrow> disposeInternal (ks, k) = (ks, k)) \<and>
    listeners (fst (state_of (KeyboardScope_addShortcut parse (ks, k) s cb sc))) =
      listeners ks @ [(s, cb, sc)]"
proof -
  have a: "mset (eventTypes (snd (disposeInternal (ks, k))) d) =
      mset (eventTypes k d) - mset (recorded_for ks d)" for d
    by (simp add: disposeInternal_def recorded_for_def recorded_triples_def mset_disposeInternal_loop)
  have b: "filter (\<lambda>l. (d, l) \<notin> set (recorded_triples ks)) (eventTypes (snd (disposeInternal (ks, k))) d) =
      filter (\<lambda>l. (d, l) \<notin> set (recorded_triples ks)) (eventTypes k d)" for d
    unfolding disposeInternal_def snd_conv fst_conv
    by (rule filter_disposeInternal_loop) (simp add: recorded_triples_member)
  have c: "listeners (fst (state_of (KeyboardScope_addShortcut parse (ks, k) s cb sc))) =
      listeners ks @ [(s, cb, sc)]"
    by (simp add: fst_KeyboardScope_addShortcut)
  from a b c show ?thesis by (simp add: disposeInternal_def)
qed

theorem dispose_removes_exactly_the_recorded_witness:
  "listeners KeyboardScope_new = [] \<and>
   disposeInternal (KeyboardScope_new, two_listeners) = (KeyboardScope_new, two_listeners) \<and>
   listeners (fst scoped_three) =
     [(''ctrl+g'', 7, None), (''ctrl+h'', 8, Some 5), (''ctrl+g|ctrl+j'', 9, None)] \<and>
   eventTypes (snd scoped_three) ''ctrl+g'' = [(1, None), (2, None), (7, None), (9, None)] \<and>
   mset (eventTypes (snd (disposeInternal scoped_three)) ''ctrl+g'') = {#(1, None), (2, None)#} \<and>
   eventTypes (snd (disposeInternal scoped_three)) ''ctrl+g'' = [(1, None), (2, None)]"
proof -
  have e: "listeners KeyboardScope_new = []"
    by (simp add: KeyboardScope_new_def)
  note t1 = dispose_removes_exactly_the_recorded
    [where ks = KeyboardScope_new and k = two_listeners and parse = accept_all]
  from t1 e have a: "disposeInternal (KeyboardScope_new, two_listeners) = (KeyboardScope_new, two_listeners)"
    by blast
  note t2 = dispose_removes_exactly_the_recorded
    [where ks = "fst scoped_three" and k = "snd scoped_three" and parse = accept_all]
  from t2 have "mset (eventTypes (snd (disposeInternal scoped_three)) ''ctrl+g'') =
      mset (eventTypes (snd scoped_three) ''ctrl+g'') - mset (recorded_for (fst scoped_three) ''ctrl+g'')"
    by simp
  then have b: "mset (eventTypes (snd (disposeInternal scoped_three)) ''ctrl+g'') = {#(1, None), (2, None)#}"
    by (simp add: scoped_three_recorded_for scoped_three_eventTypes)
  have c: "eventTypes (snd (disposeInternal scoped_three)) ''ctrl+g'' = [(1, None), (2, None)]"
    by (simp add: disposeInternal_def scoped_three_listeners removeShortcut_def split_def
        eventTypes_removeShortcut_one scoped_three_eventTypes)
  from e a b c scoped_three_listeners scoped_three_eventTypes show ?thesis by simp
qed

subsection \<open>Claim C5: one keyboard per window\<close>

lemma page_ok_new: "page_ok Page_new"
  by (simp add: page_ok_def Page_new_def)

lemma getUid_old: "uidOf g w = Some u \<Longrightarrow> getUid g w = (u, g)"
  by (simp add: getUid_def)

lemma getUid_new:
  "uidOf g w = None \<Longrightarrow>
     getUid g w = (uidCounter g + 1,
       g\<lparr>uidCounter := uidCounter g + 1, uidOf := (uidOf g)(w \<mapsto> uidCounter g + 1)\<rparr>)"
  by (simp add: getUid_def Let_def)

lemma page_ok_getUid: "page_ok g \<Longrightarrow> page_ok (snd (getUid g w))"
proof (cases "uidOf g w")
  case None
  assume ok: "page_ok g"
  let ?g1 = "g\<lparr>uidCounter := uidCounter g + 1, uidOf := (uidOf g)(w \<mapsto> uidCounter g + 1)\<rparr>"
  from ok have bound: "\<forall>w' u. uidOf g w' = Some u \<longrightarrow> u \<le> uidCounter g"
    by (simp add: page_ok_def)
  then have fresh: "\<forall>w' u. uidOf g w' = Some u \<longrightarrow> u \<noteq> uidCounter g + 1"
    by fastforce
  from ok have "\<forall>uid r. keyboardInstances g uid = Some r \<longrightarrow> uid \<le> uidCounter g"
    by (simp add: page_ok_def)
  then have nokb: "keyboardInstances g (uidCounter g + 1) = None"
    by fastforce
  from ok fresh nokb have "page_ok ?g1"
    unfolding page_ok_def by (auto simp: le_Suc_eq)
  with None show ?thesis by (simp add: getUid_new)
next
  case (Some u)
  assume "page_ok g"
  with Some show ?thesis by (simp add: getUid_old)
qed

lemma uidOf_getUid: "uidOf (snd (getUid g w)) w = Some (fst (getUid g w))"
  by (cases "uidOf g w") (simp_all add: getUid_old getUid_new)

lemma uidOf_getUid_keeps: "uidOf g w' = Some u \<Longrightarrow> uidOf (snd (getUid g w)) w' = Some u"
  by (cases "uidOf g w") (auto simp: getUid_old getUid_new)

lemma keyboardInstances_getUid: "keyboardInstances (snd (getUid g w)) = keyboardInstances g"
  by (cases "uidOf g w") (simp_all add: getUid_old getUid_new)

lemma heap_getUid: "heap (snd (getUid g w)) = heap g"
  by (cases "uidOf g w") (simp_all add: getUid_old getUid_new)

lemma cached_getUid_keeps: "cached g w' = Some r \<Longrightarrow> cached (snd (getUid g w)) w' = Some r"
  by (auto simp: cached_def keyboardInstances_getUid uidOf_getUid_keeps split: option.splits)

lemma cached_inj: "page_ok g \<Longrightarrow> cached g w = Some r \<Longrightarrow> cached g w' = Some r \<Longrightarrow> w = w'"
  unfolding page_ok_def cached_def by (auto split: option.splits)

lemma cached_heap: "page_ok g \<Longrightarrow> cached g w = Some r \<Longrightarrow> r < length (heap g)"
  unfolding page_ok_def cached_def by (auto split: option.splits)

lemma page_ok_use: "page_ok g \<Longrightarrow> page_ok (g\<lparr>heap := (heap g)[r := k]\<rparr>)"
  by (simp add: page_ok_def)

lemma cached_use: "cached (g\<lparr>heap := h\<rparr>) w = cached g w"
  by (simp add: cached_def split: option.splits)

text \<open>Installing a new keyboard for a window that has a uid and no keyboard yet.\<close>

lemma page_ok_install:
  assumes ok: "page_ok g" and u: "uidOf g w = Some u" and none: "keyboardInstances g u = None"
  shows "page_ok (g\<lparr>heap := heap g @ [Keyboard_new w],
           keyboardInstances := (keyboardInstances g)(u \<mapsto> length (heap g))\<rparr>)"
proof -
  from ok u have ule: "u \<le> uidCounter g"
    by (auto simp: page_ok_def)
  from ok have rl: "\<forall>uid r. keyboardInstances g uid = Some r \<longrightarrow> r < length (heap g)"
    by (auto simp: page_ok_def)
  from ok ule rl show ?thesis
    unfolding page_ok_def by (auto simp: less_Suc_eq split: if_splits)
qed

lemma getWindowKeyboard_unfold:
  "getWindowKeyboard G g ow =
     (case keyboardInstances (snd (getUid g (window_of G ow))) (fst (getUid g (window_of G ow))) of
        Some r \<Rightarrow> (r, snd (getUid g (window_of G ow)))
      | None \<Rightarrow>
          (length (heap (snd (getUid g (window_of G ow)))),
           (snd (getUid g (window_of G ow)))
             \<lparr>heap := heap (snd (getUid g (window_of G ow))) @ [Keyboard_new (window_of G ow)],
              keyboardInstances := (keyboardInstances (snd (getUid g (window_of G ow))))
                (fst (getUid g (window_of G ow)) \<mapsto> length (heap (snd (getUid g (window_of G ow)))))\<rparr>))"
  by (simp add: getWindowKeyboard_def window_of_def Let_def split: option.splits)

lemma getWindowKeyboard_step:
  assumes ok: "page_ok g"
  shows "page_ok (snd (getWindowKeyboard G g ow)) \<and>
    cached (snd (getWindowKeyboard G g ow)) (window_of G ow) = Some (fst (getWindowKeyboard G g ow)) \<and>
    (\<forall>w r. cached g w = Some r \<longrightarrow> cached (snd (getWindowKeyboard G g ow)) w = Some r)"
proof -
  let ?w = "window_of G ow"
  let ?g1 = "snd (getUid g ?w)"
  let ?u = "fst (getUid g ?w)"
  from ok have ok1: "page_ok ?g1" by (rule page_ok_getUid)
  have uw: "uidOf ?g1 ?w = Some ?u" by (rule uidOf_getUid)
  have keep1: "cached ?g1 w = Some r" if "cached g w = Some r" for w r
    using that by (rule cached_getUid_keeps)
  show ?thesis
  proof (cases "keyboardInstances ?g1 ?u")
    case (Some r)
    then have res: "getWindowKeyboard G g ow = (r, ?g1)"
      by (simp add: getWindowKeyboard_unfold)
    from Some uw have "cached ?g1 ?w = Some r" by (simp add: cached_def)
    with ok1 keep1 res show ?thesis by simp
  next
    case None
    let ?g2 = "?g1\<lparr>heap := heap ?g1 @ [Keyboard_new ?w],
                  keyboardInstances := (keyboardInstances ?g1)(?u \<mapsto> length (heap ?g1))\<rparr>"
    from None have res: "getWindowKeyboard G g ow = (length (heap ?g1), ?g2)"
      by (simp add: getWindowKeyboard_unfold)
    from ok1 uw None have ok2: "page_ok ?g2" by (rule page_ok_install)
    from uw have c2: "cached ?g2 ?w = Some (length (heap ?g1))" by (simp add: cached_def)
    have keep2: "cached ?g2 w = Some r" if "cached g w = Some r" for w r
    proof -
      from that have "cached ?g1 w = Some r" by (rule keep1)
      with None show ?thesis by (auto simp: cached_def split: option.splits)
    qed
    from ok2 c2 keep2 res show ?thesis by simp
  qed
qed

lemma getWindowKeyboard_cached:
  "cached g (window_of G ow) = Some r \<Longrightarrow> getWindowKeyboard G g ow = (r, g)"
  by (auto simp: getWindowKeyboard_unfold cached_def getUid_old split: option.splits)

lemma getWindowKeyboard_constructs:
  assumes ok: "page_ok g" and none: "cached g (window_of G ow) = None"
  shows "fst (getWindowKeyboard G g ow) = length (heap g) \<and>
    heap (snd (getWindowKeyboard G g ow)) = heap g @ [Keyboard_new (window_of G ow)]"
proof -
  let ?w = "window_of G ow"
  have "keyboardInstances (snd (getUid g ?w)) (fst (getUid g ?w)) = None"
  proof (cases "uidOf g ?w")
    case None
    from ok have "\<forall>uid r. keyboardInstances g uid = Some r \<longrightarrow> uid \<le> uidCounter g"
      by (simp add: page_ok_def)
    then have "keyboardInstances g (uidCounter g + 1) = None"
      by fastforce
    with None show ?thesis by (simp add: getUid_new)
  next
    case (Some u)
    with none show ?thesis by (simp add: getUid_old cached_def)
  qed
  then show ?thesis by (simp add: getWindowKeyboard_unfold heap_getUid)
qed

lemma page_step_cached:
  assumes ok: "page_ok g"
  shows "page_ok (snd (page_step G g e)) \<and>
    (\<forall>ow. e = GetWindowKeyboard ow \<longrightarrow>
       fst (page_step G g e) \<noteq> None \<and>
       cached (snd (page_step G g e)) (window_of G ow) = fst (page_step G g e)) \<and>
    (\<forall>w r. cached g w = Some r \<longrightarrow> cached (snd (page_step G g e)) w = Some r)"
proof (cases e)
  case (GetWindowKeyboard ow)
  with getWindowKeyboard_step [OF ok, of G ow] show ?thesis by simp
next
  case (UseKeyboard r k)
  with ok show ?thesis by (simp add: page_ok_use cached_use)
qed

lemma page_run_cached:
  "page_ok g \<Longrightarrow>
     page_ok (snd (page_run G g es)) \<and>
     length (fst (page_run G g es)) = length es \<and>
     (\<forall>i<length es. \<forall>ow. es ! i = GetWindowKeyboard ow \<longrightarrow>
        fst (page_run G g es) ! i \<noteq> None \<and>
        cached (snd (page_run G g es)) (window_of G ow) = fst (page_run G g es) ! i) \<and>
     (\<forall>w r. cached g w = Some r \<longrightarrow> cached (snd (page_run G g es)) w = Some r)"
proof (induction es arbitrary: g)
  case Nil
  then show ?case by simp
next
  case (Cons e es)
  let ?g1 = "snd (page_step G g e)"
  let ?r = "fst (page_step G g e)"
  let ?g2 = "snd (page_run G ?g1 es)"
  let ?rs = "fst (page_run G ?g1 es)"
  from page_step_cached [OF Cons.prems, of G e] have
    ok1: "page_ok ?g1" and
    c1: "\<And>ow. e = GetWindowKeyboard ow \<Longrightarrow> ?r \<noteq> None \<and> cached ?g1 (window_of G ow) = ?r" and
    k1: "\<And>w r. cached g w = Some r \<Longrightarrow> cached ?g1 w = Some r"
    by blast+
  from Cons.IH [OF ok1] have
    ok2: "page_ok ?g2" and len: "length ?rs = length es" and
    c2: "\<And>i ow. i < length es \<Longrightarrow> es ! i = GetWindowKeyboard ow \<Longrightarrow>
           ?rs ! i \<noteq> None \<and> cached ?g2 (window_of G ow) = ?rs ! i" and
    k2: "\<And>w r. cached ?g1 w = Some r \<Longrightarrow> cached ?g2 w = Some r"
    by blast+
  have "(?r # ?rs) ! i \<noteq> None \<and> cached ?g2 (window_of G ow) = (?r # ?rs) ! i"
    if "i < length (e # es)" "(e # es) ! i = GetWindowKeyboard ow" for i ow
  proof (cases i)
    case 0
    with that c1 [of ow] have "?r \<noteq> None" "cached ?g1 (window_of G ow) = ?r" by simp_all
    then obtain r where "?r = Some r" "cached ?g1 (window_of G ow) = Some r" by auto
    with k2 0 show ?thesis by simp
  next
    case (Suc j)
    with that c2 [of j ow] show ?thesis by simp
  qed
  moreover have "cached ?g2 w = Some r" if "cached g w = Some r" for w r
    using that k1 k2 by blast
  ultimately show ?case using ok2 len
    by (simp only: page_run.simps fst_conv snd_conv list.size) simp
qed

lemma three_calls:
  "fst (page_run 0 Page_new
     [GetWindowKeyboard (Some 5), UseKeyboard 0 two_listeners, GetWindowKeyboard None,
      GetWindowKeyboard (Some 5)]) = [Some 0, None, Some 1, Some 0]"
  by (simp add: getWindowKeyboard_def getUid_def Page_new_def Let_def)

lemma three_calls_heap:
  "heap (snd (page_run 0 Page_new
     [GetWindowKeyboard (Some 5), UseKeyboard 0 two_listeners, GetWindowKeyboard None,
      GetWindowKeyboard (Some 5)])) = [two_listeners, Keyboard_new 0]"
  by (simp add: getWindowKeyboard_def getUid_def Page_new_def Let_def)

text \<open>
  C5. Take a page the calls can reach (\<open>page_ok\<close>: the page at load time is one, and
  \<^verbatim>\<open>goog.getUid\<close>, \<^verbatim>\<open>getWindowKeyboard\<close> and the use of the keyboards keep it) and
  let any sequence of \<^verbatim>\<open>getWindowKeyboard\<close> calls and uses of keyboards happen. Every
  call returns a keyboard, and two of the calls return the same keyboard if and only if
  they were made for the same window, a call without a window counting as a call for the
  global window. A call for a window that has no keyboard yet constructs one for that
  window and returns it; a call for a window that has one returns it and changes
  nothing.
\<close>

theorem getWindowKeyboard_one_keyboard_per_window:
  assumes ok: "page_ok g"
  shows "(\<forall>i<length es. \<forall>j<length es. \<forall>wi wj.
       es ! i = GetWindowKeyboard wi \<longrightarrow> es ! j = GetWindowKeyboard wj \<longrightarrow>
       fst (page_run G g es) ! i \<noteq> None \<and>
       (fst (page_run G g es) ! i = fst (page_run G g es) ! j) =
         (window_of G wi = window_of G wj)) \<and>
    (cached g (window_of G ow) = None \<longrightarrow>
       fst (getWindowKeyboard G g ow) = length (heap g) \<and>
       heap (snd (getWindowKeyboard G g ow)) = heap g @ [Keyboard_new (window_of G ow)] \<and>
       cached (snd (getWindowKeyboard G g ow)) (window_of G ow) = Some (length (heap g))) \<and>
    (\<forall>r. cached g (window_of G ow) = Some r \<longrightarrow> getWindowKeyboard G g ow = (r, g)) \<and>
    getWindowKeyboard G g None = getWindowKeyboard G g (Some G) \<and>
    page_ok (snd (page_run G g es)) \<and>
    page_ok (snd (getUid g obj)) \<and>
    page_ok Page_new"
proof -
  let ?rs = "fst (page_run G g es)"
  let ?g' = "snd (page_run G g es)"
  from page_run_cached [OF ok, of G es] have
    ok': "page_ok ?g'" and
    c: "\<And>i ow. i < length es \<Longrightarrow> es ! i = GetWindowKeyboard ow \<Longrightarrow>
          ?rs ! i \<noteq> None \<and> cached ?g' (window_of G ow) = ?rs ! i"
    by blast+
  have same: "?rs ! i \<noteq> None \<and> (?rs ! i = ?rs ! j) = (window_of G wi = window_of G wj)"
    if "i < length es" "j < length es" "es ! i = GetWindowKeyboard wi" "es ! j = GetWindowKeyboard wj"
    for i j wi wj
  proof -
    from c [OF that(1) that(3)] obtain r where
      ri: "?rs ! i = Some r" and ci: "cached ?g' (window_of G wi) = Some r"
      by auto
    from c [OF that(2) that(4)] have cj: "cached ?g' (window_of G wj) = ?rs ! j"
      by simp
    have "(?rs ! i = ?rs ! j) = (window_of G wi = window_of G wj)"
    proof
      assume "?rs ! i = ?rs ! j"
      with ri cj have "cached ?g' (window_of G wj) = Some r" by simp
      with ok' ci show "window_of G wi = window_of G wj" by (rule cached_inj)
    next
      assume "window_of G wi = window_of G wj"
      with ci cj ri show "?rs ! i = ?rs ! j" by simp
    qed
    with ri show ?thesis by simp
  qed
  have built: "fst (getWindowKeyboard G g ow) = length (heap g) \<and>
      heap (snd (getWindowKeyboard G g ow)) = heap g @ [Keyboard_new (window_of G ow)] \<and>
      cached (snd (getWindowKeyboard G g ow)) (window_of G ow) = Some (length (heap g))"
    if "cached g (window_of G ow) = None"
    using getWindowKeyboard_constructs [OF ok that] getWindowKeyboard_step [OF ok, of G ow]
    by simp
  have kept: "getWindowKeyboard G g ow = (r, g)" if "cached g (window_of G ow) = Some r" for r
    using that by (rule getWindowKeyboard_cached)
  have omitted: "getWindowKeyboard G g None = getWindowKeyboard G g (Some G)"
    by (simp add: getWindowKeyboard_def)
  from same built kept omitted ok' page_ok_getUid [OF ok] page_ok_new show ?thesis by blast
qed

theorem getWindowKeyboard_one_keyboard_per_window_witness:
  "page_ok Page_new \<and>
   fst (page_run 0 Page_new
     [GetWindowKeyboard (Some 5), UseKeyboard 0 two_listeners, GetWindowKeyboard None,
      GetWindowKeyboard (Some 5)]) = [Some 0, None, Some 1, Some 0] \<and>
   heap (snd (page_run 0 Page_new
     [GetWindowKeyboard (Some 5), UseKeyboard 0 two_listeners, GetWindowKeyboard None,
      GetWindowKeyboard (Some 5)])) = [two_listeners, Keyboard_new 0] \<and>
   fst (page_run 0 Page_new
     [GetWindowKeyboard (Some 5), UseKeyboard 0 two_listeners, GetWindowKeyboard None,
      GetWindowKeyboard (Some 5)]) ! 0 =
   fst (page_run 0 Page_new
     [GetWindowKeyboard (Some 5), UseKeyboard 0 two_listeners, GetWindowKeyboard None,
      GetWindowKeyboard (Some 5)]) ! 3"
proof -
  let ?es = "[GetWindowKeyboard (Some 5), UseKeyboard 0 two_listeners, GetWindowKeyboard None,
      GetWindowKeyboard (Some 5)]"
  note t = getWindowKeyboard_one_keyboard_per_window [OF page_ok_new, where G = 0 and es = ?es]
  note same = t [THEN conjunct1, rule_format, of 0 3 "Some 5" "Some 5"]
  have "fst (page_run 0 Page_new ?es) ! 0 \<noteq> None \<and>
      (fst (page_run 0 Page_new ?es) ! 0 = fst (page_run 0 Page_new ?es) ! 3) =
        (window_of 0 (Some 5) = window_of 0 (Some 5))"
    by (rule same) simp_all
  then have again: "fst (page_run 0 Page_new ?es) ! 0 = fst (page_run 0 Page_new ?es) ! 3"
    by (rule conjE) (simp del: page_run.simps)
  from page_ok_new three_calls three_calls_heap again show ?thesis by (intro conjI)
qed

subsection \<open>Claim C9: what the host is asked to register\<close>







end
